theory Spec2Isabelle
  imports Main "HOL-Library.Sublist" "HOL-Library.AList" "HOL-Library.Monad_Syntax"
begin

section \<open>JavaScript values\<close>

text \<open>
  The values the mode API handles: what \<^verbatim>\<open>require\<close> gives for a JSON file, what
  travels over IPC, what a settings document holds. An object is the table of its own
  properties in insertion order; members inherited from \<^verbatim>\<open>Object.prototype\<close> are not
  part of the model. Numbers are the integers.
\<close>

datatype jsval =
    JUndef
  | JNull
  | JBool bool
  | JNum int
  | JStr string
  | JArr "jsval list"
  | JObj "(string \<times> jsval) list"

type_synonym doc = "string \<Rightarrow> jsval option"

section \<open>The page state\<close>

text \<open>
  A radio input of the document: its \<^verbatim>\<open>value\<close> attribute (absent: the property reads
  \<^verbatim>\<open>"on"\<close>), its \<^verbatim>\<open>name\<close> (radios of one name exclude each other; the empty name
  groups nothing), whether it is checked, and the keys of the change handlers that
  \<^verbatim>\<open>$manage\<close> has bound on it, oldest first.
\<close>

record radio =
  r_value :: "string option"
  r_name :: string
  r_checked :: bool
  r_handlers :: "string list"

text \<open>
  An element that \<^verbatim>\<open>$(selectors)\<close> can match: a control with a \<^verbatim>\<open>value\<close> property
  (modelled as a text-like control, which keeps the string it is given), or an element
  without one, which holds the radio inputs found inside it (their positions in the
  document's list of radios, in document order; an empty list is an element with no
  radio input inside).
\<close>

datatype body = Valued string | Container "nat list"

record element =
  el_id :: string
  el_body :: body
  el_handlers :: "string list"

datatype logline =
    IncompatibleElement nat
  | BadLanguageFile string
  | BadDomFile
  | SelectorNotFound string

text \<open>
  Everything the preload script can read or change: the messages sent to the host
  (\<^verbatim>\<open>ipc.sendToHost(channel, args...)\<close>, oldest first), \<^verbatim>\<open>robopaint.settings\<close>,
  \<^verbatim>\<open>mode.settings.v\<close>, the persistent settings storage by namespace (\<open>None\<close> is the
  central, un-namespaced document), the form elements and radio inputs of the page,
  and the console.
\<close>

record world =
  outbox :: "(string \<times> jsval list) list"
  rp_settings :: doc
  settings_v :: doc
  storage :: "string option \<Rightarrow> doc option"
  elements :: "element list"
  radios :: "radio list"
  console :: "logline list"

text \<open>
  The mode object: \<^verbatim>\<open>mode.robopaint.name\<close> and the properties the mode's own script
  has put on it. A property is a function (called with values or callbacks, it changes
  the page state) or any other value; \<^verbatim>\<open>_.isFunction\<close> tells them apart.
\<close>

datatype arg = AVal jsval | ACallback "world \<Rightarrow> world"

datatype property = Fn "arg list \<Rightarrow> world \<Rightarrow> world" | NotFn jsval

record mode =
  mode_name :: string
  member :: "string \<Rightarrow> property option"

section \<open>Lifecycle coordinator\<close>

definition sendToHost :: "string \<Rightarrow> jsval list \<Rightarrow> world \<Rightarrow> world" where
  "sendToHost channel args w = w\<lparr>outbox := outbox w @ [(channel, args)]\<rparr>"

text \<open>\<^verbatim>\<open>mode.run\<close>: the arguments, as one array, go out on \<^verbatim>\<open>cncserver-run\<close>.\<close>

definition run :: "jsval list \<Rightarrow> world \<Rightarrow> world" where
  "run arguments w = sendToHost ''cncserver-run'' [JArr arguments] w"

definition fullCancel :: "jsval \<Rightarrow> world \<Rightarrow> world" where
  "fullCancel message w =
     run [JArr [JStr ''clear'',
                JStr ''resume'',
                JStr ''park'',
                JArr [JStr ''status'', message, JBool True],
                JArr [JStr ''progress'', JNum 0, JNum 1],
                JStr ''localclear''],
          JBool True] w"

definition handleModeClose :: "mode \<Rightarrow> string \<Rightarrow> world \<Rightarrow> world" where
  "handleModeClose m returnChannel w =
     (case member m ''onClose'' of
        Some (Fn onClose) \<Rightarrow> onClose [ACallback (sendToHost returnChannel [])] w
      | _ \<Rightarrow> sendToHost returnChannel [] w)"

text \<open>\<^verbatim>\<open>name.charAt(0).toUpperCase()\<close> and \<^verbatim>\<open>name.slice(1)\<close>, on ASCII letters.\<close>

definition toUpperCase :: "char \<Rightarrow> char" where
  "toUpperCase c =
     (if 97 \<le> (of_char c :: nat) \<and> (of_char c :: nat) \<le> 122
      then char_of ((of_char c :: nat) - 32) else c)"

definition capitalized :: "string \<Rightarrow> string" where
  "capitalized name = map toUpperCase (take 1 name) @ drop 1 name"

text \<open>
  The dispatcher of \<^verbatim>\<open>cncserver\<close> events. \<open>translateMode\<close> is the translator's
  re-run, passed in.
\<close>

definition handleCNCServerMessages ::
  "(world \<Rightarrow> world) \<Rightarrow> mode \<Rightarrow> jsval \<Rightarrow> jsval \<Rightarrow> world \<Rightarrow> world" where
  "handleCNCServerMessages translateMode m name data w =
     (case name of
        JStr n \<Rightarrow>
          if n = ''penUpdate'' \<or> n = ''bufferUpdate'' \<or> n = ''fullyPaused''
             \<or> n = ''fullyResumed'' \<or> n = ''callbackEvent''
          then (case member m (''on'' @ capitalized n) of
                  Some (Fn f) \<Rightarrow> f [AVal data] w
                | _ \<Rightarrow> w)
          else if n = ''langChange'' then translateMode w
          else (case member m ''onMessage'' of
                  Some (Fn f) \<Rightarrow> f [AVal name, AVal data] w
                | _ \<Rightarrow> w)
      | _ \<Rightarrow>
          (case member m ''onMessage'' of
             Some (Fn f) \<Rightarrow> f [AVal name, AVal data] w
           | _ \<Rightarrow> w))"

text \<open>
  Modelled from the spec: \<^verbatim>\<open>robopaint.utils.getSettings\<close>, \<^verbatim>\<open>saveSettings\<close> and
  \<^verbatim>\<open>clearSettings\<close> live in the \<^verbatim>\<open>utils\<close> module, which is not among the sources.
  The spec: load reads the namespaced document from storage, defaulting to an empty
  mapping if absent; save writes the mapping back under the namespace; clear removes
  the namespaced document.
\<close>

definition getSettings :: "string option \<Rightarrow> world \<Rightarrow> doc" where
  "getSettings ns w = (case storage w ns of None \<Rightarrow> Map.empty | Some d \<Rightarrow> d)"

definition saveSettings :: "doc \<Rightarrow> string option \<Rightarrow> world \<Rightarrow> world" where
  "saveSettings d ns w = w\<lparr>storage := (storage w)(ns := Some d)\<rparr>"

definition clearSettings :: "string option \<Rightarrow> world \<Rightarrow> world" where
  "clearSettings ns w = w\<lparr>storage := (storage w)(ns := None)\<rparr>"

text \<open>\<^verbatim>\<open>args[i]\<close> on the array an event carries.\<close>

definition arg_at :: "jsval list \<Rightarrow> nat \<Rightarrow> jsval" where
  "arg_at args i = (if i < length args then args ! i else JUndef)"

text \<open>The four \<^verbatim>\<open>ipc.on\<close> registrations: what an inbound event on a channel does.\<close>

definition ipc_on ::
  "(world \<Rightarrow> world) \<Rightarrow> mode \<Rightarrow> string \<Rightarrow> jsval list \<Rightarrow> world \<Rightarrow> world" where
  "ipc_on translateMode m channel args w =
     (if channel = ''globalclose'' then handleModeClose m ''globalclose'' w
      else if channel = ''modechange'' then handleModeClose m ''modechange'' w
      else if channel = ''cncserver''
        then handleCNCServerMessages translateMode m (arg_at args 0) (arg_at args 1) w
      else if channel = ''settingsUpdate'' then w\<lparr>rp_settings := getSettings None w\<rparr>
      else w)"

text \<open>\<^verbatim>\<open>mode.settings.load\<close>, \<^verbatim>\<open>save\<close> and \<^verbatim>\<open>clear\<close>.\<close>

definition settings_load :: "mode \<Rightarrow> world \<Rightarrow> world" where
  "settings_load m w = w\<lparr>settings_v := getSettings (Some (mode_name m)) w\<rparr>"

definition settings_save :: "mode \<Rightarrow> world \<Rightarrow> world" where
  "settings_save m w = saveSettings (settings_v w) (Some (mode_name m)) w"

definition settings_clear :: "mode \<Rightarrow> world \<Rightarrow> world" where
  "settings_clear m w = clearSettings (Some (mode_name m)) w"

section \<open>Property access\<close>

text \<open>Decimal digits of a number, as \<^verbatim>\<open>String(n)\<close> prints an integer.\<close>

fun show_nat :: "nat \<Rightarrow> string" where
  "show_nat n =
     (if n < 10 then [char_of (48 + n)]
      else show_nat (n div 10) @ [char_of (48 + n mod 10)])"

definition show_int :: "int \<Rightarrow> string" where
  "show_int i = (if i < 0 then CHR ''-'' # show_nat (nat (- i)) else show_nat (nat i))"

fun join :: "string \<Rightarrow> string list \<Rightarrow> string" where
  "join sep [] = []"
| "join sep [x] = x"
| "join sep (x # y # ys) = x @ sep @ join sep (y # ys)"

text \<open>
  \<^verbatim>\<open>String(v)\<close>, which is also how a value becomes a property name or a piece of a
  concatenated string. An array prints its elements joined by commas, with nothing
  for \<^verbatim>\<open>null\<close> and \<^verbatim>\<open>undefined\<close>.
\<close>

fun to_string :: "jsval \<Rightarrow> string" where
  "to_string JUndef = ''undefined''"
| "to_string JNull = ''null''"
| "to_string (JBool b) = (if b then ''true'' else ''false'')"
| "to_string (JNum n) = show_int n"
| "to_string (JStr s) = s"
| "to_string (JArr xs) =
     join '','' (map (\<lambda>x. case x of JUndef \<Rightarrow> [] | JNull \<Rightarrow> [] | _ \<Rightarrow> to_string x) xs)"
| "to_string (JObj kvs) = ''[object Object]''"

fun truthy :: "jsval \<Rightarrow> bool" where
  "truthy JUndef = False"
| "truthy JNull = False"
| "truthy (JBool b) = b"
| "truthy (JNum n) = (n \<noteq> 0)"
| "truthy (JStr s) = (s \<noteq> [])"
| "truthy (JArr xs) = True"
| "truthy (JObj kvs) = True"

text \<open>The elements of an array as properties named by their indices.\<close>

definition props_of_array :: "jsval list \<Rightarrow> (string \<times> jsval) list" where
  "props_of_array xs = zip (map show_nat [0..<length xs]) xs"

text \<open>
  Reading \<^verbatim>\<open>base[k]\<close>: \<open>None\<close> is the TypeError on \<^verbatim>\<open>null\<close> and \<^verbatim>\<open>undefined\<close>; a
  missing property reads \<^verbatim>\<open>undefined\<close>. (The \<^verbatim>\<open>length\<close> of arrays and strings is
  not modelled; the script never reads it.)
\<close>

fun js_get :: "jsval \<Rightarrow> string \<Rightarrow> jsval option" where
  "js_get JUndef k = None"
| "js_get JNull k = None"
| "js_get (JObj kvs) k = Some (case map_of kvs k of None \<Rightarrow> JUndef | Some v \<Rightarrow> v)"
| "js_get (JArr xs) k =
     Some (case map_of (props_of_array xs) k of None \<Rightarrow> JUndef | Some v \<Rightarrow> v)"
| "js_get (JBool b) k = Some JUndef"
| "js_get (JNum n) k = Some JUndef"
| "js_get (JStr s) k = Some JUndef"

text \<open>
  Writing \<^verbatim>\<open>base[k] = v\<close> under \<^verbatim>\<open>"use strict"\<close>, giving the base as it is
  afterwards: \<open>None\<close> is the TypeError on \<^verbatim>\<open>null\<close>, \<^verbatim>\<open>undefined\<close> and, in strict
  mode, on a string, number or boolean. An existing property keeps its place, a new
  one goes last. An array that is given a property is from then on held as the table
  of its properties.
\<close>

fun js_set :: "jsval \<Rightarrow> string \<Rightarrow> jsval \<Rightarrow> jsval option" where
  "js_set (JObj kvs) k v = Some (JObj (AList.update k v kvs))"
| "js_set (JArr xs) k v = Some (JObj (AList.update k v (props_of_array xs)))"
| "js_set JUndef k v = None"
| "js_set JNull k v = None"
| "js_set (JBool b) k v = None"
| "js_set (JNum n) k v = None"
| "js_set (JStr s) k v = None"

section \<open>Resource merge engine\<close>

text \<open>
  A resource directory is the list \<^verbatim>\<open>fs.readdirSync\<close> gives, each file name with
  what \<^verbatim>\<open>require\<close> makes of the file: its parsed content, or \<open>None\<close> when
  \<^verbatim>\<open>require\<close> throws. \<^verbatim>\<open>res\<close> maps a language code to its entry, an object with
  the one field \<^verbatim>\<open>translation\<close>.
\<close>

record lang_res =
  translation :: jsval

type_synonym res = "string \<Rightarrow> lang_res option"

type_synonym resfile = "string \<times> jsval option"

text \<open>\<^verbatim>\<open>data._meta.target\<close> as the property name it is used for; \<open>None\<close> when reading it throws.\<close>

definition langCode_of :: "jsval \<Rightarrow> string option" where
  "langCode_of data =
     do { meta \<leftarrow> js_get data ''_meta'';
          target \<leftarrow> js_get meta ''target'';
          Some (to_string target) }"

text \<open>The \<^verbatim>\<open>try\<close> block of the first loop; \<open>None\<close> when it throws.\<close>

definition try_shared :: "jsval option \<Rightarrow> res \<Rightarrow> res option" where
  "try_shared content res =
     do { data \<leftarrow> content;
          langCode \<leftarrow> langCode_of data;
          let res1 = (case res langCode of
                        None \<Rightarrow> res(langCode \<mapsto> \<lparr>translation = JObj []\<rparr>)
                      | Some e \<Rightarrow> res);
          e \<leftarrow> res1 langCode;
          Some (res1(langCode \<mapsto> e\<lparr>translation := data\<rparr>)) }"

definition shared_file :: "resfile \<Rightarrow> res \<times> logline list \<Rightarrow> res \<times> logline list" where
  "shared_file f st =
     (case try_shared (snd f) (fst st) of
        Some res' \<Rightarrow> (res', snd st)
      | None \<Rightarrow> (fst st, snd st @ [BadLanguageFile (fst f)]))"

text \<open>\<^verbatim>\<open>file.indexOf('.map.json') === -1\<close> is \<open>\<not> is_map file\<close>.\<close>

definition is_map :: "string \<Rightarrow> bool" where
  "is_map file = sublist ''.map.json'' file"

text \<open>
  The \<^verbatim>\<open>try\<close> block of the second loop; \<open>None\<close> when it throws. Every statement
  that can throw does so before the first write, so a throw leaves \<^verbatim>\<open>res\<close> as it was.
\<close>

definition try_local :: "string \<Rightarrow> jsval option \<Rightarrow> res \<Rightarrow> res option" where
  "try_local name content res =
     do { data \<leftarrow> content;
          langCode \<leftarrow> langCode_of data;
          e \<leftarrow> res langCode;
          modes \<leftarrow> js_get (translation e) ''modes'';
          t1 \<leftarrow> (if \<not> truthy modes then js_set (translation e) ''modes'' (JObj [])
                 else Some (translation e));
          modes1 \<leftarrow> js_get t1 ''modes'';
          modes2 \<leftarrow> js_set modes1 name data;
          t2 \<leftarrow> js_set t1 ''modes'' modes2;
          Some (res(langCode \<mapsto> e\<lparr>translation := t2\<rparr>)) }"

definition local_file ::
  "string \<Rightarrow> resfile \<Rightarrow> res \<times> logline list \<Rightarrow> res \<times> logline list" where
  "local_file name f st =
     (if \<not> is_map (fst f)
      then (case try_local name (snd f) (fst st) of
              Some res' \<Rightarrow> (res', snd st)
            | None \<Rightarrow> (fst st, snd st @ [BadLanguageFile (fst f)]))
      else st)"

text \<open>
  \<^verbatim>\<open>i18nInit\<close> up to the call of \<^verbatim>\<open>i18n.init\<close>: the resource store it hands over and
  what it has logged, from the shared directory, the mode's directory and the mode's name.
\<close>

definition i18nInit :: "resfile list \<Rightarrow> resfile list \<Rightarrow> string \<Rightarrow> res \<times> logline list" where
  "i18nInit shared locals name =
     fold (local_file name) locals (fold shared_file shared (Map.empty, []))"


text \<open>
  Reading the store the way a dotted key is resolved: \<^verbatim>\<open>res[l].translation\<close>, then one
  property after the other; \<open>None\<close> when the language is missing or the path runs
  through \<^verbatim>\<open>null\<close> or \<^verbatim>\<open>undefined\<close>.
\<close>

fun path_get :: "jsval \<Rightarrow> string list \<Rightarrow> jsval option" where
  "path_get v [] = Some v"
| "path_get v (k # ks) = (case js_get v k of None \<Rightarrow> None | Some x \<Rightarrow> path_get x ks)"

definition tree_at :: "res \<Rightarrow> string \<Rightarrow> string list \<Rightarrow> jsval option" where
  "tree_at r l path = (case r l of None \<Rightarrow> None | Some e \<Rightarrow> path_get (translation e) path)"


section \<open>Translator\<close>

text \<open>
  A node of the document: a text node, a comment, or an element with its tag, its
  attributes and its child nodes in order.
\<close>

datatype dom =
    TextNode string
  | Comment string
  | Element string "(string \<times> string) list" "dom list"

fun is_text :: "dom \<Rightarrow> bool" where
  "is_text (TextNode s) = True"
| "is_text _ = False"

fun is_element :: "dom \<Rightarrow> bool" where
  "is_element (Element tag as cs) = True"
| "is_element _ = False"

fun attrs_of :: "dom \<Rightarrow> (string \<times> string) list" where
  "attrs_of (Element tag as cs) = as"
| "attrs_of _ = []"

fun children_of :: "dom \<Rightarrow> dom list" where
  "children_of (Element tag as cs) = cs"
| "children_of _ = []"

text \<open>
  \<^verbatim>\<open>.contents().filter(function(){ return this.nodeType == 3; }).first().replaceWith(..)\<close>
  on the child nodes of an element: the first text node among them gives way to the
  nodes \<open>new\<close>; without a text node nothing happens.
\<close>

fun replace_first_text :: "dom list \<Rightarrow> dom list \<Rightarrow> dom list" where
  "replace_first_text new [] = []"
| "replace_first_text new (TextNode s # cs) = new @ cs"
| "replace_first_text new (c # cs) = c # replace_first_text new cs"

fun text_rule :: "dom list \<Rightarrow> dom \<Rightarrow> dom" where
  "text_rule new (Element tag as cs) = Element tag as (replace_first_text new cs)"
| "text_rule new n = n"

text \<open>
  \<^verbatim>\<open>$(this).attr(a, s)\<close> with a string: the attribute is set. (What jQuery itself does
  to the name and to boolean attributes is not modelled.)
\<close>

fun jq_attr :: "string \<Rightarrow> string \<Rightarrow> dom \<Rightarrow> dom" where
  "jq_attr a s (Element tag as cs) = Element tag (AList.update a s as) cs"
| "jq_attr a s n = n"

text \<open>The property names a \<^verbatim>\<open>for (var attr in v)\<close> loop goes through.\<close>

definition for_in :: "jsval \<Rightarrow> string list" where
  "for_in v =
     (case v of JObj kvs \<Rightarrow> map fst kvs | JArr xs \<Rightarrow> map fst (props_of_array xs) | _ \<Rightarrow> [])"

text \<open>\<^verbatim>\<open>v[k]\<close> where \<^verbatim>\<open>v\<close> is known to be an object.\<close>

definition member_of :: "jsval \<Rightarrow> string \<Rightarrow> jsval" where
  "member_of v k = (case js_get v k of None \<Rightarrow> JUndef | Some x \<Rightarrow> x)"

fun isString :: "jsval \<Rightarrow> bool" where
  "isString (JStr s) = True"
| "isString _ = False"

fun isObject :: "jsval \<Rightarrow> bool" where
  "isObject (JObj kvs) = True"
| "isObject (JArr xs) = True"
| "isObject _ = False"

text \<open>
  The DOM-map branch of \<^verbatim>\<open>translateMode\<close> for one selector, from
  \<^verbatim>\<open>var i18nKey = mappings[selector]\<close> on: what it makes of the matched elements.
  \<open>t\<close> is \<^verbatim>\<open>robopaint.t(..) + debugExtra\<close>, the translation of a key as a string;
  \<open>fragment\<close> is what jQuery's \<^verbatim>\<open>replaceWith\<close> builds from a string (no node for the
  empty string, one text node for plain text, the parsed nodes for markup). Both
  belong to libraries outside the sources and are passed in.
\<close>

definition attr_entry ::
  "(jsval \<Rightarrow> string) \<Rightarrow> (string \<Rightarrow> dom list) \<Rightarrow> jsval \<Rightarrow> string \<Rightarrow> dom \<Rightarrow> dom" where
  "attr_entry t fragment i18nKey attr el =
     (if attr = ''text'' then text_rule (fragment (t (member_of i18nKey ''text''))) el
      else jq_attr attr (t (member_of i18nKey attr)) el)"

definition apply_mapping ::
  "(jsval \<Rightarrow> string) \<Rightarrow> (string \<Rightarrow> dom list) \<Rightarrow> jsval \<Rightarrow> dom list \<Rightarrow> dom list" where
  "apply_mapping t fragment i18nKey elems =
     (if isString i18nKey then map (text_rule (fragment (t i18nKey))) elems
      else if isObject i18nKey
        then fold (\<lambda>attr els. map (attr_entry t fragment i18nKey attr) els) (for_in i18nKey) elems
      else elems)"

text \<open>\<^verbatim>\<open>$node.text()\<close>: the text nodes below a node, concatenated.\<close>

fun text_of :: "dom \<Rightarrow> string" where
  "text_of (TextNode s) = s"
| "text_of (Comment s) = []"
| "text_of (Element tag as cs) = concat (map text_of cs)"

text \<open>
  The native branch, first step, for one element with an empty \<^verbatim>\<open>data-i18n\<close>
  attribute: from its text and its attributes, the attributes it is left with. (The
  second test of the source, that the attribute is still empty, is the test that
  selected the element.)
\<close>

definition rewrite_marker :: "string \<Rightarrow> (string \<times> string) list \<Rightarrow> (string \<times> string) list" where
  "rewrite_marker text as =
     (if map_of as ''data-i18n'' = Some [] \<and> CHR ''.'' \<in> set text
      then AList.update ''data-i18n'' text as
      else as)"

text \<open>
  The step over the whole document. It reads the text and writes the attribute of the
  same element only, and an attribute is no text, so the elements can be taken in any
  order: here, down the tree.
\<close>

fun normalize_markers :: "dom \<Rightarrow> dom" where
  "normalize_markers (Element tag as cs) =
     Element tag (rewrite_marker (text_of (Element tag as cs)) as) (map normalize_markers cs)"
| "normalize_markers (TextNode s) = TextNode s"
| "normalize_markers (Comment s) = Comment s"

text \<open>The elements of a document, in document order.\<close>

fun elements_of :: "dom \<Rightarrow> dom list" where
  "elements_of (Element tag as cs) = Element tag as cs # concat (map elements_of cs)"
| "elements_of (TextNode s) = []"
| "elements_of (Comment s) = []"

text \<open>
  The native branch: the markers are rewritten, then \<^verbatim>\<open>i18n.translateObject\<close> (a
  library function, passed in) goes over the document.
\<close>

definition translateMode_native :: "(dom \<Rightarrow> dom) \<Rightarrow> dom \<Rightarrow> dom" where
  "translateMode_native translateObject document = translateObject (normalize_markers document)"

section \<open>Form binding layer\<close>

text \<open>
  The model of \<^verbatim>\<open>mode.settings.$manage\<close>. Its scope: a control with a value is a
  text-like control, which after \<^verbatim>\<open>val(x)\<close> holds the string of \<^verbatim>\<open>x\<close>; the controls
  with a value do not contain one another and a radio input is not itself among the
  matched elements, so a change event reaches the handlers bound on its own target
  only.
\<close>

text \<open>
  The selector \<^verbatim>\<open>'input[value=' + v[key] + ']'\<close> is built from the stored value without
  quotes, and what it selects is jQuery's business (jQuery is not among the sources):
  the text may be read as a value to compare with, it may be rejected with a syntax
  error, which \<^verbatim>\<open>$(...)\<close> throws, or it may close the bracket and go on as some other
  selector. So the reading is a parameter of the model, the \<open>engine\<close>: for the text put
  after \<^verbatim>\<open>value=\<close>, either \<open>None\<close>, the selector is rejected, or the test that a radio
  input of the page, given by its position, has to pass to be selected.
\<close>

type_synonym selector = "radio list \<Rightarrow> nat \<Rightarrow> bool"

type_synonym engine = "string \<Rightarrow> selector option"

text \<open>The text read as a value: the inputs whose \<^verbatim>\<open>value\<close> attribute is that text.\<close>

definition by_value :: "string \<Rightarrow> selector" where
  "by_value t l i \<longleftrightarrow> r_value (l ! i) = Some t"

text \<open>
  What jQuery throws for a selector it cannot read, with the selector. The page
  stays as the statements before the throw have left it.
\<close>

datatype error = SyntaxError string

datatype outcome = Returned world | Thrown error world

fun page_of :: "outcome \<Rightarrow> world" where
  "page_of (Returned w) = w"
| "page_of (Thrown e w) = w"

fun returned :: "outcome \<Rightarrow> bool" where
  "returned (Returned w) = True"
| "returned (Thrown e w) = False"

fun error_of :: "outcome \<Rightarrow> error option" where
  "error_of (Returned w) = None"
| "error_of (Thrown e w) = Some e"

text \<open>\<^verbatim>\<open>this.value\<close> of a radio input.\<close>

definition value_prop :: "radio \<Rightarrow> string" where
  "value_prop r = (case r_value r of None \<Rightarrow> ''on'' | Some s \<Rightarrow> s)"

text \<open>The body of both change handlers: \<^verbatim>\<open>mode.settings.v[key] = this.value; mode.settings.save();\<close>\<close>

definition write_setting :: "mode \<Rightarrow> string \<Rightarrow> string \<Rightarrow> world \<Rightarrow> world" where
  "write_setting m key s w = settings_save m (w\<lparr>settings_v := (settings_v w)(key \<mapsto> JStr s)\<rparr>)"

text \<open>The handler bound on the radio inputs of a group, run for radio \<open>i\<close>.\<close>

definition radio_handler :: "mode \<Rightarrow> nat \<Rightarrow> string \<Rightarrow> world \<Rightarrow> world" where
  "radio_handler m i key w =
     (if r_checked (radios w ! i) then write_setting m key (value_prop (radios w ! i)) w else w)"

text \<open>A change event on radio \<open>i\<close>: every handler bound on it, oldest first.\<close>

definition radio_change :: "mode \<Rightarrow> nat \<Rightarrow> world \<Rightarrow> world" where
  "radio_change m i w = fold (radio_handler m i) (r_handlers (radios w ! i)) w"

text \<open>\<^verbatim>\<open>this.value\<close> of a matched element.\<close>

definition value_of :: "element \<Rightarrow> string" where
  "value_of el = (case el_body el of Valued s \<Rightarrow> s | Container rs \<Rightarrow> [])"

text \<open>The handler bound on a control with a value, run for element \<open>j\<close>.\<close>

definition scalar_handler :: "mode \<Rightarrow> nat \<Rightarrow> string \<Rightarrow> world \<Rightarrow> world" where
  "scalar_handler m j key w = write_setting m key (value_of (elements w ! j)) w"

text \<open>A change event on element \<open>j\<close>.\<close>

definition element_change :: "mode \<Rightarrow> nat \<Rightarrow> world \<Rightarrow> world" where
  "element_change m j w = fold (scalar_handler m j) (el_handlers (elements w ! j)) w"

text \<open>\<^verbatim>\<open>v[key]\<close> when \<^verbatim>\<open>typeof v[key] !== 'undefined'\<close>, else \<open>None\<close>.\<close>

definition stored_value :: "doc \<Rightarrow> string \<Rightarrow> jsval option" where
  "stored_value v key = (case v key of Some JUndef \<Rightarrow> None | x \<Rightarrow> x)"

text \<open>What \<^verbatim>\<open>$(this).val(x)\<close> leaves in a text-like control: jQuery turns \<^verbatim>\<open>null\<close> into the empty string.\<close>

definition val_text :: "jsval \<Rightarrow> string" where
  "val_text x = (case x of JNull \<Rightarrow> [] | JUndef \<Rightarrow> [] | _ \<Rightarrow> to_string x)"

text \<open>A jQuery set of radio inputs, given by their positions: \<open>f\<close> done to each of them.\<close>

definition each_of :: "nat list \<Rightarrow> (radio \<Rightarrow> radio) \<Rightarrow> radio list \<Rightarrow> radio list" where
  "each_of rs f l = map (\<lambda>(i, r). if i \<in> set rs then f r else r) (zip [0..<length l] l)"

text \<open>\<^verbatim>\<open>$radio.prop('checked', false)\<close> on the radios \<open>radio\<close> of a group.\<close>

definition uncheck :: "nat list \<Rightarrow> radio list \<Rightarrow> radio list" where
  "uncheck radio l = each_of radio (\<lambda>r. r\<lparr>r_checked := False\<rparr>) l"

text \<open>
  \<^verbatim>\<open>.prop('checked', true)\<close> on radio \<open>i\<close>: the browser unchecks the other radios of
  the same non-empty name.
\<close>

definition check :: "nat \<Rightarrow> radio list \<Rightarrow> radio list" where
  "check i l =
     (map (\<lambda>r. if r_name r \<noteq> [] \<and> r_name r = r_name (l ! i) then r\<lparr>r_checked := False\<rparr> else r) l)
       [i := (l ! i)\<lparr>r_checked := True\<rparr>]"

text \<open>
  \<^verbatim>\<open>$radio.prop('checked', false); $(selector, this).prop('checked', true);\<close> on the
  radios \<open>radio\<close> of a group, for a selector that jQuery has read as \<open>test\<close>: the group
  is unchecked, then the radios of the group that pass the test are checked, in
  document order.
\<close>

definition restore :: "selector \<Rightarrow> nat list \<Rightarrow> radio list \<Rightarrow> radio list" where
  "restore test radio l =
     fold check (filter (test (uncheck radio l)) radio) (uncheck radio l)"

text \<open>
  \<^verbatim>\<open>$radio.change(function(){...}).change()\<close>: the handler is bound on every radio of the
  group, then a change event is triggered on each of them.
\<close>

definition track :: "mode \<Rightarrow> string \<Rightarrow> nat list \<Rightarrow> world \<Rightarrow> world" where
  "track m key radio w =
     fold (radio_change m) radio
       (w\<lparr>radios := each_of radio (\<lambda>r. r\<lparr>r_handlers := r_handlers r @ [key]\<rparr>) (radios w)\<rparr>)"

text \<open>
  The branch for a group of radio inputs: restore, bind, trigger. With a value stored,
  the group is unchecked first and the selector is built next; when jQuery rejects
  it, \<^verbatim>\<open>$(...)\<close> throws there, before anything is bound: the group stays unchecked and
  the error leaves \<^verbatim>\<open>$manage\<close>, which has no \<^verbatim>\<open>try\<close>.
\<close>

definition manage_radios :: "mode \<Rightarrow> engine \<Rightarrow> string \<Rightarrow> nat list \<Rightarrow> world \<Rightarrow> outcome" where
  "manage_radios m query key radio w =
     (case stored_value (settings_v w) key of
        None \<Rightarrow> Returned (track m key radio w)
      | Some x \<Rightarrow>
          (case query (to_string x) of
             None \<Rightarrow>
               Thrown (SyntaxError (''input[value='' @ to_string x @ '']''))
                 (w\<lparr>radios := uncheck radio (radios w)\<rparr>)
           | Some test \<Rightarrow>
               Returned (track m key radio (w\<lparr>radios := restore test radio (radios w)\<rparr>))))"

text \<open>The branch for a control with a value: restore, bind, trigger.\<close>

definition manage_valued :: "mode \<Rightarrow> string \<Rightarrow> nat \<Rightarrow> world \<Rightarrow> world" where
  "manage_valued m key j w =
     (let w1 = (case stored_value (settings_v w) key of
                  None \<Rightarrow> w
                | Some x \<Rightarrow>
                    w\<lparr>elements := (elements w)[j := (elements w ! j)\<lparr>el_body := Valued (val_text x)\<rparr>]\<rparr>);
          w2 = w1\<lparr>elements :=
                    (elements w1)[j := (elements w1 ! j)
                       \<lparr>el_handlers := el_handlers (elements w1 ! j) @ [key]\<rparr>]\<rparr>
      in element_change m j w2)"

text \<open>
  The body of \<^verbatim>\<open>$(selectors).each\<close> for the matched element \<open>j\<close>. A position outside
  the page matches nothing.
\<close>

definition manage_element :: "mode \<Rightarrow> engine \<Rightarrow> nat \<Rightarrow> world \<Rightarrow> outcome" where
  "manage_element m query j w =
     (if j < length (elements w)
      then (let key = el_id (elements w ! j) in
            case el_body (elements w ! j) of
              Container rs \<Rightarrow>
                (let radio = filter (\<lambda>i. i < length (radios w)) rs in
                 if radio \<noteq> [] then manage_radios m query key radio w
                 else Returned (w\<lparr>console := console w @ [IncompatibleElement j]\<rparr>))
            | Valued s \<Rightarrow> Returned (manage_valued m key j w))
      else Returned w)"

text \<open>
  \<^verbatim>\<open>$(selectors).each(body)\<close> on the positions of the matched elements: the body is
  run for one after the other, and a throw of the body ends the loop.
\<close>

fun each :: "(nat \<Rightarrow> world \<Rightarrow> outcome) \<Rightarrow> nat list \<Rightarrow> world \<Rightarrow> outcome" where
  "each body [] w = Returned w"
| "each body (j # js) w =
     (case body j w of
        Returned w' \<Rightarrow> each body js w'
      | Thrown e w' \<Rightarrow> Thrown e w')"

text \<open>\<^verbatim>\<open>$manage\<close>, on the positions of the elements the selectors match, in document order.\<close>

definition manage :: "mode \<Rightarrow> engine \<Rightarrow> nat list \<Rightarrow> world \<Rightarrow> outcome" where
  "manage m query selected w = each (manage_element m query) selected (settings_load m w)"

text \<open>The persisted settings document of the mode.\<close>

definition persisted :: "mode \<Rightarrow> world \<Rightarrow> doc" where
  "persisted m w = getSettings (Some (mode_name m)) w"

subsection \<open>Invariants of the binding loop\<close>

text \<open>The in-memory mapping is what storage holds.\<close>

definition synced :: "mode \<Rightarrow> world \<Rightarrow> bool" where
  "synced m w \<longleftrightarrow> persisted m w = settings_v w"

text \<open>The radio inputs inside a matched element: \<^verbatim>\<open>$('input[type=radio]', this)\<close>.\<close>

definition radios_in :: "world \<Rightarrow> nat \<Rightarrow> nat list" where
  "radios_in w j =
     (if j < length (elements w)
      then (case el_body (elements w ! j) of
              Container rs \<Rightarrow> filter (\<lambda>i. i < length (radios w)) rs
            | Valued s \<Rightarrow> [])
      else [])"

text \<open>A page on which \<^verbatim>\<open>$manage\<close> has bound no handler yet.\<close>

definition fresh :: "world \<Rightarrow> bool" where
  "fresh w \<longleftrightarrow> list_all (\<lambda>e. el_handlers e = []) (elements w)
     \<and> list_all (\<lambda>r. r_handlers r = []) (radios w)"

text \<open>No radio input lies inside two of the selected elements.\<close>

definition separate :: "nat list \<Rightarrow> world \<Rightarrow> bool" where
  "separate selected w \<longleftrightarrow>
     (\<forall>j \<in> set selected. \<forall>j' \<in> set selected.
        j \<noteq> j' \<longrightarrow> (\<forall>i \<in> set (radios_in w j'). i \<notin> set (radios_in w j)))"

text \<open>
  A group whose next restore and change events will write nothing new under key \<open>k\<close>:
  nothing stored and nothing checked, or a string stored, or something else stored
  that no radio of the group has as its value.
\<close>

definition settled_group :: "doc \<Rightarrow> radio list \<Rightarrow> string \<Rightarrow> nat list \<Rightarrow> bool" where
  "settled_group v l k radio \<longleftrightarrow>
     (case stored_value v k of
        None \<Rightarrow> (\<forall>i \<in> set radio. \<not> r_checked (l ! i))
      | Some (JStr s) \<Rightarrow> True
      | Some x \<Rightarrow> (\<forall>i \<in> set radio. r_value (l ! i) \<noteq> Some (to_string x)))"

text \<open>The value of a control after the restore step.\<close>

definition restored_value :: "doc \<Rightarrow> string \<Rightarrow> string \<Rightarrow> string" where
  "restored_value v k s = (case stored_value v k of None \<Rightarrow> s | Some x \<Rightarrow> val_text x)"

definition container_of :: "element \<Rightarrow> nat list option" where
  "container_of e = (case el_body e of Container rs \<Rightarrow> Some rs | Valued s \<Rightarrow> None)"

text \<open>Every handler bound on element \<open>j\<close> or on its radios writes under the id of \<open>j\<close>.\<close>

definition keyed :: "world \<Rightarrow> nat \<Rightarrow> bool" where
  "keyed w j \<longleftrightarrow> (j < length (elements w) \<longrightarrow>
      set (el_handlers (elements w ! j)) \<subseteq> {el_id (elements w ! j)}
    \<and> (\<forall>i \<in> set (radios_in w j). set (r_handlers (radios w ! i)) \<subseteq> {el_id (elements w ! j)}))"

text \<open>Managing element \<open>j\<close> again will write nothing new.\<close>

definition settled :: "world \<Rightarrow> nat \<Rightarrow> bool" where
  "settled w j \<longleftrightarrow> (j < length (elements w) \<longrightarrow>
      (case el_body (elements w ! j) of
         Valued s \<Rightarrow> (\<exists>s'. settings_v w (el_id (elements w ! j)) = Some (JStr s'))
       | Container rs \<Rightarrow>
           settled_group (settings_v w) (radios w) (el_id (elements w ! j)) (radios_in w j)))"

text \<open>What managing element \<open>j\<close> leaves as it was.\<close>

definition frame :: "nat \<Rightarrow> world \<Rightarrow> world \<Rightarrow> bool" where
  "frame j w w' \<longleftrightarrow>
      length (elements w') = length (elements w) \<and> length (radios w') = length (radios w)
    \<and> (\<forall>j' < length (elements w).
          el_id (elements w' ! j') = el_id (elements w ! j')
        \<and> container_of (elements w' ! j') = container_of (elements w ! j')
        \<and> (j' \<noteq> j \<longrightarrow> elements w' ! j' = elements w ! j'))
    \<and> (\<forall>i < length (radios w).
          r_value (radios w' ! i) = r_value (radios w ! i)
        \<and> (i \<notin> set (radios_in w j) \<longrightarrow>
              r_handlers (radios w' ! i) = r_handlers (radios w ! i)
            \<and> (r_checked (radios w' ! i) \<longrightarrow> r_checked (radios w ! i))))"

definition bound :: "mode \<Rightarrow> nat list \<Rightarrow> world \<Rightarrow> bool" where
  "bound m selected w \<longleftrightarrow>
     synced m w \<and> (\<forall>j \<in> set selected. keyed w j) \<and> separate selected w"




text \<open>The engine that reads every text as a value. It never rejects a selector.\<close>

definition exact :: engine where
  "exact t = Some (by_value t)"

text \<open>
  The radio branch and the loop body under \<open>exact\<close>: the page that \<open>manage_radios\<close> and
  \<open>manage_element\<close> return under any engine that reads the stored text as a value
  (lemma \<open>manage_element_plain\<close>). The step lemmas of the invariants are stated on
  these.
\<close>

definition radios_step :: "mode \<Rightarrow> string \<Rightarrow> nat list \<Rightarrow> world \<Rightarrow> world" where
  "radios_step m key radio w = page_of (manage_radios m exact key radio w)"

definition element_step :: "mode \<Rightarrow> nat \<Rightarrow> world \<Rightarrow> world" where
  "element_step m j w = page_of (manage_element m exact j w)"


subsection \<open>Example pages\<close>

text \<open>
  An engine for the example pages. jQuery's selector engine takes an unquoted
  attribute value made of letters, digits, \<^verbatim>\<open>_\<close> and \<^verbatim>\<open>-\<close> as the value to compare
  with, and rejects \<^verbatim>\<open>input[value=0.5]\<close> as an unrecognized expression. This engine
  does the same, and rejects every other text too (jQuery reads some of them, as
  quoted strings, escapes or further selectors; the example pages hold none).
\<close>

definition word_char :: "char \<Rightarrow> bool" where
  "word_char c \<longleftrightarrow>
     (let n = (of_char c :: nat) in
      (48 \<le> n \<and> n \<le> 57) \<or> (65 \<le> n \<and> n \<le> 90) \<or> (97 \<le> n \<and> n \<le> 122) \<or> n = 95 \<or> n = 45)"

definition by_identifier :: engine where
  "by_identifier t = (if t \<noteq> [] \<and> list_all word_char t then Some (by_value t) else None)"

definition draw :: mode where
  "draw = \<lparr>mode_name = ''draw'', member = Map.empty\<rparr>"

text \<open>A text-like control and a group of two radio inputs, nothing stored.\<close>

definition form_page :: world where
  "form_page = \<lparr>outbox = [], rp_settings = Map.empty, settings_v = Map.empty,
     storage = (\<lambda>ns. None),
     elements = [\<lparr>el_id = ''speed'', el_body = Valued ''5'', el_handlers = []\<rparr>,
                 \<lparr>el_id = ''tool'', el_body = Container [0, 1], el_handlers = []\<rparr>],
     radios = [\<lparr>r_value = Some ''pen'', r_name = ''tool'', r_checked = False, r_handlers = []\<rparr>,
               \<lparr>r_value = Some ''brush'', r_name = ''tool'', r_checked = True, r_handlers = []\<rparr>],
     console = []\<rparr>"




text \<open>
  A group of two radio inputs with the values \<^verbatim>\<open>0.5\<close> and \<^verbatim>\<open>1\<close>, the second one checked,
  followed by a text-like control; \<^verbatim>\<open>{"tool": "0.5"}\<close> stored for the mode.
\<close>

definition decimal_page :: world where
  "decimal_page = \<lparr>outbox = [], rp_settings = Map.empty, settings_v = Map.empty,
     storage = [Some ''draw'' \<mapsto> [''tool'' \<mapsto> JStr ''0.5'']],
     elements = [\<lparr>el_id = ''tool'', el_body = Container [0, 1], el_handlers = []\<rparr>,
                 \<lparr>el_id = ''speed'', el_body = Valued ''5'', el_handlers = []\<rparr>],
     radios = [\<lparr>r_value = Some ''0.5'', r_name = ''tool'', r_checked = False, r_handlers = []\<rparr>,
               \<lparr>r_value = Some ''1'', r_name = ''tool'', r_checked = True, r_handlers = []\<rparr>],
     console = []\<rparr>"

section \<open>Lifecycle coordinator: results\<close>

text \<open>
  C2. For every message, \<^verbatim>\<open>fullCancel(message)\<close> sends exactly one outbound message,
  on \<^verbatim>\<open>cncserver-run\<close>, and changes nothing else. The message carries one batch with
  the priority flag set; the batch is clear, resume, park, the status line with the
  message, the progress reset and, last, localclear.
\<close>

theorem fullCancel_sends_one_priority_batch:
  "fullCancel message w =
     w\<lparr>outbox := outbox w @
        [(''cncserver-run'',
          [JArr [JArr [JStr ''clear'', JStr ''resume'', JStr ''park'',
                       JArr [JStr ''status'', message, JBool True],
                       JArr [JStr ''progress'', JNum 0, JNum 1],
                       JStr ''localclear''],
                 JBool True]])]\<rparr>
   \<and> last [JStr ''clear'', JStr ''resume'', JStr ''park'',
            JArr [JStr ''status'', message, JBool True],
            JArr [JStr ''progress'', JNum 0, JNum 1],
            JStr ''localclear''] = JStr ''localclear''"
  by (simp add: fullCancel_def run_def sendToHost_def)

text \<open>
  C1. An inbound close event on \<^verbatim>\<open>globalclose\<close> or \<^verbatim>\<open>modechange\<close>: a mode whose
  \<^verbatim>\<open>onClose\<close> is not a function gets exactly one acknowledgment appended to the
  outbox, on the channel of the event, and nothing else changes. A mode with an
  \<^verbatim>\<open>onClose\<close> function has it called with one argument, the acknowledgment callback,
  and the handler does nothing besides: whatever \<^verbatim>\<open>onClose\<close> leaves in the outbox
  without invoking its callback is all there is, so a mode that defers sends nothing.
  Invoking the callback appends the acknowledgment on the channel of the event.
\<close>

theorem close_handshake:
  "channel = ''globalclose'' \<or> channel = ''modechange'' \<Longrightarrow>
     ((\<forall>f. member m ''onClose'' \<noteq> Some (Fn f)) \<longrightarrow>
        ipc_on translateMode m channel args w = w\<lparr>outbox := outbox w @ [(channel, [])]\<rparr>)
   \<and> (member m ''onClose'' = Some (Fn onClose) \<longrightarrow>
        ipc_on translateMode m channel args w =
          onClose [ACallback (\<lambda>w'. w'\<lparr>outbox := outbox w' @ [(channel, [])]\<rparr>)] w)
   \<and> (member m ''onClose'' = Some (Fn onClose) \<and>
        (\<forall>cb. outbox (onClose [ACallback cb] w) = outbox w) \<longrightarrow>
        outbox (ipc_on translateMode m channel args w) = outbox w)"
proof -
  assume ch: "channel = ''globalclose'' \<or> channel = ''modechange''"
  have ack: "sendToHost channel [] = (\<lambda>w'. w'\<lparr>outbox := outbox w' @ [(channel, [])]\<rparr>)"
    by (rule ext) (simp add: sendToHost_def)
  from ch have on: "ipc_on translateMode m channel args w = handleModeClose m channel w"
    by (auto simp: ipc_on_def)
  have none: "(\<forall>f. member m ''onClose'' \<noteq> Some (Fn f)) \<longrightarrow>
      handleModeClose m channel w = w\<lparr>outbox := outbox w @ [(channel, [])]\<rparr>"
    by (auto simp: handleModeClose_def sendToHost_def split: option.splits property.splits)
  have some: "member m ''onClose'' = Some (Fn onClose) \<longrightarrow>
      handleModeClose m channel w =
        onClose [ACallback (\<lambda>w'. w'\<lparr>outbox := outbox w' @ [(channel, [])]\<rparr>)] w"
    by (simp add: handleModeClose_def ack)
  from none some show ?thesis
    unfolding on by simp
qed

theorem close_handshake_witness:
  "ipc_on id \<lparr>mode_name = ''draw'', member = Map.empty\<rparr> ''globalclose'' []
     \<lparr>outbox = [], rp_settings = Map.empty, settings_v = Map.empty,
      storage = (\<lambda>ns. None), elements = [], radios = [], console = []\<rparr>
   = \<lparr>outbox = [(''globalclose'', [])], rp_settings = Map.empty, settings_v = Map.empty,
      storage = (\<lambda>ns. None), elements = [], radios = [], console = []\<rparr>
   \<and> outbox (ipc_on id
       \<lparr>mode_name = ''draw'',
        member = [''onClose'' \<mapsto> Fn (\<lambda>args (w::world). w\<lparr>console := console w @ [BadDomFile]\<rparr>)]\<rparr>
       ''modechange'' []
       \<lparr>outbox = [], rp_settings = Map.empty, settings_v = Map.empty,
        storage = (\<lambda>ns. None), elements = [], radios = [], console = []\<rparr>) = []"
  using
    close_handshake [where channel = "''globalclose''"
      and m = "\<lparr>mode_name = ''draw'', member = Map.empty\<rparr>"
      and translateMode = id and args = "[]"
      and w = "\<lparr>outbox = [], rp_settings = Map.empty, settings_v = Map.empty,
        storage = (\<lambda>ns. None), elements = [], radios = [], console = []\<rparr>"]
    close_handshake [where channel = "''modechange''"
      and m = "\<lparr>mode_name = ''draw'',
        member = [''onClose'' \<mapsto> Fn (\<lambda>args (w::world). w\<lparr>console := console w @ [BadDomFile]\<rparr>)]\<rparr>"
      and onClose = "\<lambda>args (w::world). w\<lparr>console := console w @ [BadDomFile]\<rparr>"
      and translateMode = id and args = "[]"
      and w = "\<lparr>outbox = [], rp_settings = Map.empty, settings_v = Map.empty,
        storage = (\<lambda>ns. None), elements = [], radios = [], console = []\<rparr>"]
  by simp

text \<open>
  C8. An inbound \<^verbatim>\<open>cncserver\<close> event carrying the pair of an event name and a payload:
  each of the five device events calls the mode's capability of the matching name with
  the payload when that member is a function and changes nothing otherwise; a name
  that is none of the five and not \<^verbatim>\<open>langChange\<close> calls \<^verbatim>\<open>onMessage\<close> with the name and
  the payload when it is a function and changes nothing otherwise.
\<close>

theorem cncserver_dispatch:
  "((n, cap) \<in> {(''penUpdate'', ''onPenUpdate''), (''bufferUpdate'', ''onBufferUpdate''),
                (''fullyPaused'', ''onFullyPaused''), (''fullyResumed'', ''onFullyResumed''),
                (''callbackEvent'', ''onCallbackEvent'')} \<longrightarrow>
      (member m cap = Some (Fn f) \<longrightarrow>
         ipc_on translateMode m ''cncserver'' [JStr n, data] w = f [AVal data] w)
    \<and> ((\<forall>g. member m cap \<noteq> Some (Fn g)) \<longrightarrow>
         ipc_on translateMode m ''cncserver'' [JStr n, data] w = w))
   \<and> (name \<notin> {JStr ''penUpdate'', JStr ''bufferUpdate'', JStr ''fullyPaused'',
               JStr ''fullyResumed'', JStr ''callbackEvent'', JStr ''langChange''} \<longrightarrow>
      (member m ''onMessage'' = Some (Fn f) \<longrightarrow>
         ipc_on translateMode m ''cncserver'' [name, data] w = f [AVal name, AVal data] w)
    \<and> ((\<forall>g. member m ''onMessage'' \<noteq> Some (Fn g)) \<longrightarrow>
         ipc_on translateMode m ''cncserver'' [name, data] w = w))"
proof -
  have on: "ipc_on translateMode m ''cncserver'' [x, data] w =
      handleCNCServerMessages translateMode m x data w" for x
    by (simp add: ipc_on_def arg_at_def)
  have cap: "capitalized ''penUpdate'' = ''PenUpdate''"
    "capitalized ''bufferUpdate'' = ''BufferUpdate''"
    "capitalized ''fullyPaused'' = ''FullyPaused''"
    "capitalized ''fullyResumed'' = ''FullyResumed''"
    "capitalized ''callbackEvent'' = ''CallbackEvent''"
    by code_simp+
  have named: "(n, cap) \<in> {(''penUpdate'', ''onPenUpdate''), (''bufferUpdate'', ''onBufferUpdate''),
                (''fullyPaused'', ''onFullyPaused''), (''fullyResumed'', ''onFullyResumed''),
                (''callbackEvent'', ''onCallbackEvent'')} \<Longrightarrow>
      handleCNCServerMessages translateMode m (JStr n) data w =
        (case member m cap of Some (Fn g) \<Rightarrow> g [AVal data] w | _ \<Rightarrow> w)"
    by (auto simp: handleCNCServerMessages_def cap)
  have other: "name \<notin> {JStr ''penUpdate'', JStr ''bufferUpdate'', JStr ''fullyPaused'',
               JStr ''fullyResumed'', JStr ''callbackEvent'', JStr ''langChange''} \<Longrightarrow>
      handleCNCServerMessages translateMode m name data w =
        (case member m ''onMessage'' of Some (Fn g) \<Rightarrow> g [AVal name, AVal data] w | _ \<Rightarrow> w)"
    by (cases name) (auto simp: handleCNCServerMessages_def)
  show ?thesis
    unfolding on
    by (auto simp: named other split: option.splits property.splits)
qed

theorem cncserver_dispatch_witness:
  "outbox (ipc_on id
      \<lparr>mode_name = ''draw'', member = [''onPenUpdate'' \<mapsto> Fn (\<lambda>args. sendToHost ''seen'' [])]\<rparr>
      ''cncserver'' [JStr ''penUpdate'', JNum 7]
      \<lparr>outbox = [], rp_settings = Map.empty, settings_v = Map.empty,
       storage = (\<lambda>ns. None), elements = [], radios = [], console = []\<rparr>) = [(''seen'', [])]
   \<and> outbox (ipc_on id
      \<lparr>mode_name = ''draw'', member = [''onPenUpdate'' \<mapsto> Fn (\<lambda>args. sendToHost ''seen'' [])]\<rparr>
      ''cncserver'' [JStr ''bufferUpdate'', JNum 7]
      \<lparr>outbox = [], rp_settings = Map.empty, settings_v = Map.empty,
       storage = (\<lambda>ns. None), elements = [], radios = [], console = []\<rparr>) = []
   \<and> outbox (ipc_on id
      \<lparr>mode_name = ''draw'', member = [''onMessage'' \<mapsto> Fn (\<lambda>args. sendToHost ''seen'' [])]\<rparr>
      ''cncserver'' [JStr ''movementComplete'', JNum 7]
      \<lparr>outbox = [], rp_settings = Map.empty, settings_v = Map.empty,
       storage = (\<lambda>ns. None), elements = [], radios = [], console = []\<rparr>) = [(''seen'', [])]
   \<and> outbox (ipc_on id
      \<lparr>mode_name = ''draw'', member = Map.empty\<rparr>
      ''cncserver'' [JStr ''movementComplete'', JNum 7]
      \<lparr>outbox = [], rp_settings = Map.empty, settings_v = Map.empty,
       storage = (\<lambda>ns. None), elements = [], radios = [], console = []\<rparr>) = []"
  using
    cncserver_dispatch [of "''penUpdate''" "''onPenUpdate''"
      "\<lparr>mode_name = ''draw'', member = [''onPenUpdate'' \<mapsto> Fn (\<lambda>args. sendToHost ''seen'' [])]\<rparr>"
      "\<lambda>args. sendToHost ''seen'' []" id "JNum 7"
      "\<lparr>outbox = [], rp_settings = Map.empty, settings_v = Map.empty,
       storage = (\<lambda>ns. None), elements = [], radios = [], console = []\<rparr>" "JStr ''penUpdate''"]
    cncserver_dispatch [of "''bufferUpdate''" "''onBufferUpdate''"
      "\<lparr>mode_name = ''draw'', member = [''onPenUpdate'' \<mapsto> Fn (\<lambda>args. sendToHost ''seen'' [])]\<rparr>"
      "\<lambda>args. sendToHost ''seen'' []" id "JNum 7"
      "\<lparr>outbox = [], rp_settings = Map.empty, settings_v = Map.empty,
       storage = (\<lambda>ns. None), elements = [], radios = [], console = []\<rparr>" "JStr ''penUpdate''"]
    cncserver_dispatch [of "''penUpdate''" "''onPenUpdate''"
      "\<lparr>mode_name = ''draw'', member = [''onMessage'' \<mapsto> Fn (\<lambda>args. sendToHost ''seen'' [])]\<rparr>"
      "\<lambda>args. sendToHost ''seen'' []" id "JNum 7"
      "\<lparr>outbox = [], rp_settings = Map.empty, settings_v = Map.empty,
       storage = (\<lambda>ns. None), elements = [], radios = [], console = []\<rparr>" "JStr ''movementComplete''"]
    cncserver_dispatch [of "''penUpdate''" "''onPenUpdate''"
      "\<lparr>mode_name = ''draw'', member = Map.empty\<rparr>"
      "\<lambda>args. sendToHost ''seen'' []" id "JNum 7"
      "\<lparr>outbox = [], rp_settings = Map.empty, settings_v = Map.empty,
       storage = (\<lambda>ns. None), elements = [], radios = [], console = []\<rparr>" "JStr ''movementComplete''"]
  by (simp add: sendToHost_def)

text \<open>
  C9, as the claim has it: after a \<^verbatim>\<open>settingsUpdate\<close> event \<^verbatim>\<open>mode.settings.v\<close> would hold
  what storage has under the mode's name. It does not: with \<^verbatim>\<open>speed\<close> stored as
  \<^verbatim>\<open>"new"\<close> for the mode \<^verbatim>\<open>draw\<close> and \<^verbatim>\<open>"old"\<close> in memory, the event leaves
  \<^verbatim>\<open>"old"\<close> in memory.
\<close>

theorem settingsUpdate_counterexample:
  "settings_v (ipc_on id \<lparr>mode_name = ''draw'', member = Map.empty\<rparr> ''settingsUpdate'' []
       \<lparr>outbox = [], rp_settings = Map.empty, settings_v = [''speed'' \<mapsto> JStr ''old''],
        storage = [Some ''draw'' \<mapsto> [''speed'' \<mapsto> JStr ''new'']],
        elements = [], radios = [], console = []\<rparr>) ''speed'' = Some (JStr ''old'')
   \<and> getSettings (Some ''draw'')
       \<lparr>outbox = [], rp_settings = Map.empty, settings_v = [''speed'' \<mapsto> JStr ''old''],
        storage = [Some ''draw'' \<mapsto> [''speed'' \<mapsto> JStr ''new'']],
        elements = [], radios = [], console = []\<rparr> ''speed'' = Some (JStr ''new'')"
  by (simp add: ipc_on_def getSettings_def)

text \<open>
  C9, amended. An inbound \<^verbatim>\<open>settingsUpdate\<close> event reloads the central settings: it
  puts the un-namespaced document of the storage (the empty mapping when there is
  none) into \<^verbatim>\<open>robopaint.settings\<close>, replacing what was there, and changes nothing
  else; \<^verbatim>\<open>mode.settings.v\<close> and the storage stay as they were.
\<close>

theorem settingsUpdate_reloads_central_settings:
  "ipc_on translateMode m ''settingsUpdate'' args w =
     w\<lparr>rp_settings := (case storage w None of None \<Rightarrow> Map.empty | Some d \<Rightarrow> d)\<rparr>
   \<and> settings_v (ipc_on translateMode m ''settingsUpdate'' args w) = settings_v w
   \<and> storage (ipc_on translateMode m ''settingsUpdate'' args w) = storage w"
  by (simp add: ipc_on_def getSettings_def)

section \<open>Resource merge engine: results\<close>



















text \<open>
  C4, at the input where the code departs from it: the mode-local file
  \<^verbatim>\<open>draw.fr.json\<close> parses and declares \<^verbatim>\<open>fr\<close>, and no shared file declares \<^verbatim>\<open>fr\<close>.
  Reading \<^verbatim>\<open>res['fr'].translation\<close> throws, the file is logged as a bad language
  file and skipped: the store has nothing for \<^verbatim>\<open>fr\<close>, and \<^verbatim>\<open>en-US\<close> is as the shared
  file left it.
\<close>

theorem local_language_without_shared_file_is_dropped:
  "tree_at (fst (i18nInit
       [(''robopaint.en-US.json'',
         Some (JObj [(''_meta'', JObj [(''target'', JStr ''en-US'')]), (''hello'', JStr ''Hi'')]))]
       [(''draw.fr.json'',
         Some (JObj [(''_meta'', JObj [(''target'', JStr ''fr'')]), (''start'', JStr ''Allez'')]))]
       ''draw'')) ''fr'' [] = None
   \<and> tree_at (fst (i18nInit
       [(''robopaint.en-US.json'',
         Some (JObj [(''_meta'', JObj [(''target'', JStr ''en-US'')]), (''hello'', JStr ''Hi'')]))]
       [(''draw.fr.json'',
         Some (JObj [(''_meta'', JObj [(''target'', JStr ''fr'')]), (''start'', JStr ''Allez'')]))]
       ''draw'')) ''en-US'' []
       = Some (JObj [(''_meta'', JObj [(''target'', JStr ''en-US'')]), (''hello'', JStr ''Hi'')])
   \<and> snd (i18nInit
       [(''robopaint.en-US.json'',
         Some (JObj [(''_meta'', JObj [(''target'', JStr ''en-US'')]), (''hello'', JStr ''Hi'')]))]
       [(''draw.fr.json'',
         Some (JObj [(''_meta'', JObj [(''target'', JStr ''fr'')]), (''start'', JStr ''Allez'')]))]
       ''draw'') = [BadLanguageFile ''draw.fr.json'']"
  by code_simp

section \<open>Translator: results\<close>

lemma rft_subseq: "subseq (filter is_element cs) (filter is_element (replace_first_text new cs))"
  by (induction new cs rule: replace_first_text.induct) (auto intro: list_emb_append2 subseq_order.order_refl)


lemma rft_eq:
  "replace_first_text new cs =
     (if list_ex is_text cs
      then takeWhile (\<lambda>c. \<not> is_text c) cs @ new @ tl (dropWhile (\<lambda>c. \<not> is_text c) cs)
      else cs)"
  by (induction new cs rule: replace_first_text.induct) auto

lemma fold_map_each:
  "fold (\<lambda>a els. map (f a) els) ks elems = map (fold f ks) elems"
  by (induction ks arbitrary: elems) simp_all

lemma attr_entry_shape:
  "\<exists>as' cs'. attr_entry t fragment key a (Element tag as cs) = Element tag as' cs'
     \<and> subseq (filter is_element cs) (filter is_element cs')
     \<and> (\<forall>b. b \<noteq> a \<or> b = ''text'' \<longrightarrow> map_of as' b = map_of as b)
     \<and> (a \<noteq> ''text'' \<longrightarrow> cs' = cs)"
  by (auto simp: attr_entry_def rft_subseq update_conv')

lemma fold_attr_entry_shape:
  "\<exists>as' cs'. fold (attr_entry t fragment key) ks (Element tag as cs) = Element tag as' cs'
     \<and> subseq (filter is_element cs) (filter is_element cs')
     \<and> (\<forall>b. b \<notin> set ks \<or> b = ''text'' \<longrightarrow> map_of as' b = map_of as b)
     \<and> (''text'' \<notin> set ks \<longrightarrow> cs' = cs)"
proof (induction ks arbitrary: as cs)
  case Nil
  then show ?case by simp
next
  case (Cons a ks)
  from attr_entry_shape [of t fragment key a tag as cs] obtain as1 cs1 where
    one: "attr_entry t fragment key a (Element tag as cs) = Element tag as1 cs1"
      "subseq (filter is_element cs) (filter is_element cs1)"
      "\<forall>b. b \<noteq> a \<or> b = ''text'' \<longrightarrow> map_of as1 b = map_of as b"
      "a \<noteq> ''text'' \<longrightarrow> cs1 = cs"
    by blast
  from Cons.IH [of as1 cs1] obtain as2 cs2 where
    rest: "fold (attr_entry t fragment key) ks (Element tag as1 cs1) = Element tag as2 cs2"
      "subseq (filter is_element cs1) (filter is_element cs2)"
      "\<forall>b. b \<notin> set ks \<or> b = ''text'' \<longrightarrow> map_of as2 b = map_of as1 b"
      "''text'' \<notin> set ks \<longrightarrow> cs2 = cs1"
    by blast
  have "fold (attr_entry t fragment key) (a # ks) (Element tag as cs) = Element tag as2 cs2"
    using one(1) rest(1) by simp
  moreover have "subseq (filter is_element cs) (filter is_element cs2)"
    using one(2) rest(2) by (rule subseq_order.order_trans)
  moreover have "\<forall>b. b \<notin> set (a # ks) \<or> b = ''text'' \<longrightarrow> map_of as2 b = map_of as b"
    using one(3) rest(3) by auto
  moreover have "''text'' \<notin> set (a # ks) \<longrightarrow> cs2 = cs"
    using one(4) rest(4) by auto
  ultimately show ?case by blast
qed

text \<open>
  C6. For an element matched by a selector of the DOM map: the rule leaves it the
  element it was, and the child elements it had are all still there, in their
  order. Under a string key, or under the rule \<^verbatim>\<open>{text: key}\<close>, the attributes are
  unchanged and the children are the same but for the first direct text node, which
  is replaced by what the translation builds (no text node: no change). Under an
  object rule only the attributes the rule names can change, and when the rule has
  no \<^verbatim>\<open>text\<close> entry the children are unchanged.
\<close>

theorem dom_map_rule_frame:
  assumes "i < length elems" and "elems ! i = Element tag as cs"
  shows "length (apply_mapping t fragment i18nKey elems) = length elems
    \<and> (\<exists>as' cs'. apply_mapping t fragment i18nKey elems ! i = Element tag as' cs')
    \<and> subseq (filter is_element cs)
         (filter is_element (children_of (apply_mapping t fragment i18nKey elems ! i)))
    \<and> (apply_mapping t fragment (JStr k) elems ! i =
         Element tag as
           (if list_ex is_text cs
            then takeWhile (\<lambda>c. \<not> is_text c) cs @ fragment (t (JStr k))
                 @ tl (dropWhile (\<lambda>c. \<not> is_text c) cs)
            else cs))
    \<and> (apply_mapping t fragment (JObj [(''text'', key)]) elems ! i =
         Element tag as
           (if list_ex is_text cs
            then takeWhile (\<lambda>c. \<not> is_text c) cs @ fragment (t key)
                 @ tl (dropWhile (\<lambda>c. \<not> is_text c) cs)
            else cs))
    \<and> (isObject i18nKey \<longrightarrow>
         (\<forall>b. b \<notin> set (for_in i18nKey) \<or> b = ''text'' \<longrightarrow>
            map_of (attrs_of (apply_mapping t fragment i18nKey elems ! i)) b = map_of as b)
       \<and> (''text'' \<notin> set (for_in i18nKey) \<longrightarrow>
            children_of (apply_mapping t fragment i18nKey elems ! i) = cs))"
proof -
  have len: "length (apply_mapping t fragment i18nKey elems) = length elems"
    by (simp add: apply_mapping_def fold_map_each)
  have str: "apply_mapping t fragment (JStr k) elems ! i =
      Element tag as (replace_first_text (fragment (t (JStr k))) cs)"
    using assms by (simp add: apply_mapping_def)
  have txtrule: "apply_mapping t fragment (JObj [(''text'', key)]) elems ! i =
      Element tag as (replace_first_text (fragment (t key)) cs)"
    using assms by (simp add: apply_mapping_def for_in_def attr_entry_def member_of_def)
  from fold_attr_entry_shape [of t fragment i18nKey "for_in i18nKey" tag as cs]
  obtain as' cs' where
    folded: "fold (attr_entry t fragment i18nKey) (for_in i18nKey) (Element tag as cs) = Element tag as' cs'"
      "subseq (filter is_element cs) (filter is_element cs')"
      "\<forall>b. b \<notin> set (for_in i18nKey) \<or> b = ''text'' \<longrightarrow> map_of as' b = map_of as b"
      "''text'' \<notin> set (for_in i18nKey) \<longrightarrow> cs' = cs"
    by blast
  have objres: "isObject i18nKey \<Longrightarrow> apply_mapping t fragment i18nKey elems ! i = Element tag as' cs'"
    using assms folded(1) by (cases i18nKey) (simp_all add: apply_mapping_def fold_map_each)
  have shape: "\<exists>as' cs'. apply_mapping t fragment i18nKey elems ! i = Element tag as' cs'"
  proof (cases "isObject i18nKey")
    case True
    with objres show ?thesis by blast
  next
    case False
    with assms show ?thesis by (cases i18nKey) (simp_all add: apply_mapping_def)
  qed
  have sub: "subseq (filter is_element cs)
      (filter is_element (children_of (apply_mapping t fragment i18nKey elems ! i)))"
  proof (cases "isObject i18nKey")
    case True
    with objres folded(2) show ?thesis by simp
  next
    case False
    with assms show ?thesis by (cases i18nKey) (simp_all add: apply_mapping_def rft_subseq)
  qed
  have frame: "isObject i18nKey \<longrightarrow>
         (\<forall>b. b \<notin> set (for_in i18nKey) \<or> b = ''text'' \<longrightarrow>
            map_of (attrs_of (apply_mapping t fragment i18nKey elems ! i)) b = map_of as b)
       \<and> (''text'' \<notin> set (for_in i18nKey) \<longrightarrow>
            children_of (apply_mapping t fragment i18nKey elems ! i) = cs)"
    using objres folded(3,4) by auto
  from len shape sub str txtrule frame show ?thesis
    by (simp only: rft_eq)
qed

theorem dom_map_rule_frame_witness:
  "apply_mapping (\<lambda>k. ''Los'') (\<lambda>s. [TextNode s]) (JStr ''modes.draw.start'')
     [Element ''button'' [(''id'', ''go'')]
        [Element ''i'' [] [], TextNode ''Start'', Element ''b'' [] []]] ! 0
     = Element ''button'' [(''id'', ''go'')]
        [Element ''i'' [] [], TextNode ''Los'', Element ''b'' [] []]
   \<and> children_of (apply_mapping (\<lambda>k. ''Los'') (\<lambda>s. [TextNode s]) (JObj [(''title'', JStr ''modes.draw.tip'')])
     [Element ''button'' [(''id'', ''go'')]
        [Element ''i'' [] [], TextNode ''Start'', Element ''b'' [] []]] ! 0)
     = [Element ''i'' [] [], TextNode ''Start'', Element ''b'' [] []]
   \<and> map_of (attrs_of (apply_mapping (\<lambda>k. ''Los'') (\<lambda>s. [TextNode s]) (JObj [(''title'', JStr ''modes.draw.tip'')])
     [Element ''button'' [(''id'', ''go'')]
        [Element ''i'' [] [], TextNode ''Start'', Element ''b'' [] []]] ! 0)) ''id'' = Some ''go''"
  using dom_map_rule_frame [where i = 0
      and elems = "[Element ''button'' [(''id'', ''go'')]
        [Element ''i'' [] [], TextNode ''Start'', Element ''b'' [] []]]"
      and tag = "''button''" and as = "[(''id'', ''go'')]"
      and cs = "[Element ''i'' [] [], TextNode ''Start'', Element ''b'' [] []]"
      and t = "\<lambda>k. ''Los''" and fragment = "\<lambda>s. [TextNode s]"
      and k = "''modes.draw.start''" and i18nKey = "JObj [(''title'', JStr ''modes.draw.tip'')]"]
  by (simp add: for_in_def)

lemma text_of_normalize: "text_of (normalize_markers d) = text_of d"
proof (induction d)
  case (Element tag as cs)
  then show ?case by (simp add: comp_def cong: map_cong)
qed simp_all

lemma rewrite_marker_idem: "rewrite_marker text (rewrite_marker text as) = rewrite_marker text as"
proof (cases "map_of as ''data-i18n'' = Some [] \<and> CHR ''.'' \<in> set text")
  case True
  then have "text \<noteq> []" by auto
  then have "map_of (AList.update ''data-i18n'' text as) ''data-i18n'' \<noteq> Some []"
    by (simp add: update_conv')
  then have "rewrite_marker text (AList.update ''data-i18n'' text as) = AList.update ''data-i18n'' text as"
    by (simp add: rewrite_marker_def)
  with True show ?thesis by (simp add: rewrite_marker_def)
next
  case False
  then have "rewrite_marker text as = as" by (auto simp: rewrite_marker_def)
  then show ?thesis by simp
qed

lemma normalize_idem: "normalize_markers (normalize_markers d) = normalize_markers d"
proof (induction d)
  case (Element tag as cs)
  then have kids: "map normalize_markers (map normalize_markers cs) = map normalize_markers cs"
    by (simp add: comp_def cong: map_cong)
  have "text_of (normalize_markers (Element tag as cs)) = text_of (Element tag as cs)"
    by (rule text_of_normalize)
  then have same: "concat (map text_of (map normalize_markers cs)) = concat (map text_of cs)"
    by (simp del: map_map)
  have "normalize_markers (normalize_markers (Element tag as cs)) =
      Element tag
        (rewrite_marker (concat (map text_of (map normalize_markers cs)))
           (rewrite_marker (concat (map text_of cs)) as))
        (map normalize_markers (map normalize_markers cs))"
    by (simp del: map_map)
  also have "\<dots> = Element tag (rewrite_marker (concat (map text_of cs)) as) (map normalize_markers cs)"
    by (simp only: same kids rewrite_marker_idem)
  also have "\<dots> = normalize_markers (Element tag as cs)"
    by simp
  finally show ?case .
qed simp_all

lemma elements_of_normalize:
  "elements_of (normalize_markers d) = map normalize_markers (elements_of d)"
proof (induction d)
  case (Element tag as cs)
  then have "concat (map elements_of (map normalize_markers cs)) =
      map normalize_markers (concat (map elements_of cs))"
    by (simp add: comp_def map_concat cong: map_cong)
  then show ?case by (simp del: map_map)
qed simp_all

text \<open>
  C7, as the claim has it: every element with an empty marker would get its text as
  the marker. An element whose text has no dot keeps the empty marker.
\<close>

theorem native_marker_counterexample:
  "map_of (attrs_of (normalize_markers
      (Element ''span'' [(''data-i18n'', [])] [TextNode ''Hello'']))) ''data-i18n'' = Some []"
  by (simp add: rewrite_marker_def)

text \<open>
  C7, amended. An element with an empty marker whose own text contains a dot gets
  that text as its marker; any other element keeps its attributes as they are, an
  empty marker included. No other attribute and no text changes, every element of
  the document is treated so, rewriting a second time changes nothing more, and the
  bulk pass runs on the rewritten document.
\<close>

theorem native_marker_normalization:
  "(map_of as ''data-i18n'' = Some [] \<and> CHR ''.'' \<in> set (text_of (Element tag as cs)) \<longrightarrow>
      map_of (attrs_of (normalize_markers (Element tag as cs))) ''data-i18n''
        = Some (text_of (Element tag as cs)))
   \<and> (\<not> (map_of as ''data-i18n'' = Some [] \<and> CHR ''.'' \<in> set (text_of (Element tag as cs))) \<longrightarrow>
      attrs_of (normalize_markers (Element tag as cs)) = as)
   \<and> (\<forall>b. b \<noteq> ''data-i18n'' \<longrightarrow>
      map_of (attrs_of (normalize_markers (Element tag as cs))) b = map_of as b)
   \<and> text_of (normalize_markers d) = text_of d
   \<and> elements_of (normalize_markers d) = map normalize_markers (elements_of d)
   \<and> normalize_markers (normalize_markers d) = normalize_markers d
   \<and> translateMode_native translateObject d = translateObject (normalize_markers d)"
proof -
  have attrs: "attrs_of (normalize_markers (Element tag as cs)) =
      rewrite_marker (text_of (Element tag as cs)) as"
    by simp
  have rewritten: "map_of as ''data-i18n'' = Some [] \<and> CHR ''.'' \<in> set (text_of (Element tag as cs)) \<longrightarrow>
      map_of (attrs_of (normalize_markers (Element tag as cs))) ''data-i18n''
        = Some (text_of (Element tag as cs))"
    unfolding attrs by (simp add: rewrite_marker_def update_conv' del: text_of.simps)
  have kept: "\<not> (map_of as ''data-i18n'' = Some [] \<and> CHR ''.'' \<in> set (text_of (Element tag as cs))) \<longrightarrow>
      attrs_of (normalize_markers (Element tag as cs)) = as"
    unfolding attrs by (simp add: rewrite_marker_def del: text_of.simps)
  have others: "\<forall>b. b \<noteq> ''data-i18n'' \<longrightarrow>
      map_of (attrs_of (normalize_markers (Element tag as cs))) b = map_of as b"
    unfolding attrs by (simp add: rewrite_marker_def update_conv' del: text_of.simps)
  have pass: "translateMode_native translateObject d = translateObject (normalize_markers d)"
    by (simp add: translateMode_native_def)
  from rewritten kept others pass show ?thesis
    by (simp only: text_of_normalize elements_of_normalize normalize_idem simp_thms)
qed

theorem native_marker_normalization_witness:
  "map_of (attrs_of (normalize_markers
      (Element ''span'' [(''data-i18n'', [])] [TextNode ''common.hello'']))) ''data-i18n''
     = Some ''common.hello''
   \<and> attrs_of (normalize_markers
      (Element ''span'' [(''data-i18n'', ''common.hello'')] [TextNode ''Hi''])) =
      [(''data-i18n'', ''common.hello'')]"
  using native_marker_normalization [where as = "[(''data-i18n'', [])]" and tag = "''span''"
      and cs = "[TextNode ''common.hello'']"]
    native_marker_normalization [where as = "[(''data-i18n'', ''common.hello'')]" and tag = "''span''"
      and cs = "[TextNode ''Hi'']"]
  by simp

section \<open>Form binding layer: results\<close>

lemma each_of_length [simp]: "length (each_of rs f l) = length l"
  by (simp add: each_of_def)

lemma each_of_nth [simp]:
  "i < length l \<Longrightarrow> each_of rs f l ! i = (if i \<in> set rs then f (l ! i) else l ! i)"
  by (simp add: each_of_def)

lemma write_setting_fields [simp]:
  "radios (write_setting m k s w) = radios w"
  "elements (write_setting m k s w) = elements w"
  "settings_v (write_setting m k s w) = (settings_v w)(k \<mapsto> JStr s)"
  "persisted m (write_setting m k s w) = (settings_v w)(k \<mapsto> JStr s)"
  by (simp_all add: write_setting_def settings_save_def saveSettings_def persisted_def getSettings_def)

lemma fold_radio_handler_fields [simp]:
  "radios (fold (radio_handler m i) hs w) = radios w"
  "elements (fold (radio_handler m i) hs w) = elements w"
  by (induction hs arbitrary: w) (simp_all add: radio_handler_def)

lemma radio_change_fields [simp]:
  "radios (radio_change m i w) = radios w"
  "elements (radio_change m i w) = elements w"
  by (simp_all add: radio_change_def)

lemma fold_radio_handler_unchecked:
  "\<not> r_checked (radios w ! i) \<Longrightarrow> fold (radio_handler m i) hs w = w"
  by (induction hs) (simp_all add: radio_handler_def)

lemma radio_change_unchecked:
  "\<not> r_checked (radios w ! i) \<Longrightarrow> radio_change m i w = w"
  by (simp add: radio_change_def fold_radio_handler_unchecked)

lemma radio_change_checked:
  assumes "r_checked (radios w ! i)" "r_handlers (radios w ! i) = hs @ [key]"
  shows "settings_v (radio_change m i w) key = Some (JStr (value_prop (radios w ! i)))"
    and "persisted m (radio_change m i w) = settings_v (radio_change m i w)"
  using assms by (simp_all add: radio_change_def radio_handler_def)

lemma fold_radio_change_fields [simp]:
  "radios (fold (radio_change m) is w) = radios w"
  "elements (fold (radio_change m) is w) = elements w"
  by (induction "is" arbitrary: w) simp_all

lemma fold_radio_change_none:
  "filter (\<lambda>i. r_checked (radios w ! i)) is = [] \<Longrightarrow> fold (radio_change m) is w = w"
  by (induction "is") (auto simp: radio_change_unchecked split: if_splits)

lemma fold_radio_change_last:
  assumes "\<forall>i \<in> set is. \<exists>hs. r_handlers (radios w ! i) = hs @ [key]"
    and "filter (\<lambda>i. r_checked (radios w ! i)) is \<noteq> []"
  shows "settings_v (fold (radio_change m) is w) key =
           Some (JStr (value_prop (radios w ! last (filter (\<lambda>i. r_checked (radios w ! i)) is))))
       \<and> persisted m (fold (radio_change m) is w) = settings_v (fold (radio_change m) is w)"
  using assms
proof (induction "is" rule: rev_induct)
  case Nil
  then show ?case by simp
next
  case (snoc i "is")
  let ?w = "fold (radio_change m) is w"
  have rad: "radios ?w = radios w" by simp
  from snoc.prems(1) obtain hs where hs: "r_handlers (radios w ! i) = hs @ [key]" by auto
  show ?case
  proof (cases "r_checked (radios w ! i)")
    case True
    with hs rad show ?thesis
      using radio_change_checked [of ?w i hs key m] by simp
  next
    case False
    then have same: "fold (radio_change m) (is @ [i]) w = ?w"
      using rad by (simp add: radio_change_unchecked)
    from False snoc.prems(2) have ne: "filter (\<lambda>i. r_checked (radios w ! i)) is \<noteq> []" by simp
    from snoc.prems(1) have "\<forall>i \<in> set is. \<exists>hs. r_handlers (radios w ! i) = hs @ [key]" by simp
    from snoc.IH [OF this ne] False show ?thesis
      unfolding same by simp
  qed
qed

lemma persisted_frame [simp]:
  "persisted m (w\<lparr>radios := l\<rparr>) = persisted m w"
  "persisted m (w\<lparr>elements := es\<rparr>) = persisted m w"
  "persisted m (w\<lparr>console := c\<rparr>) = persisted m w"
  by (simp_all add: persisted_def getSettings_def)

lemma synced_load: "synced m (settings_load m w)"
  by (simp add: synced_def settings_load_def persisted_def getSettings_def)


lemma fold_radio_handler_grows:
  "synced m w \<Longrightarrow> synced m (fold (radio_handler m i) hs w)
     \<and> dom (settings_v w) \<subseteq> dom (settings_v (fold (radio_handler m i) hs w))"
proof (induction hs arbitrary: w)
  case Nil
  then show ?case by simp
next
  case (Cons h hs)
  have step: "synced m (radio_handler m i h w)"
    "dom (settings_v w) \<subseteq> dom (settings_v (radio_handler m i h w))"
    using Cons.prems by (auto simp: radio_handler_def synced_def)
  from Cons.IH [OF step(1)] step(2) show ?case by auto
qed

lemma fold_radio_change_grows:
  "synced m w \<Longrightarrow> synced m (fold (radio_change m) is w)
     \<and> dom (settings_v w) \<subseteq> dom (settings_v (fold (radio_change m) is w))"
proof (induction "is" arbitrary: w)
  case Nil
  then show ?case by simp
next
  case (Cons i "is")
  have step: "synced m (radio_change m i w)"
    "dom (settings_v w) \<subseteq> dom (settings_v (radio_change m i w))"
    using fold_radio_handler_grows [OF Cons.prems] by (auto simp: radio_change_def)
  from Cons.IH [OF step(1)] step(2) show ?case by auto
qed

lemma fold_scalar_handler_fields [simp]:
  "radios (fold (scalar_handler m j) hs w) = radios w"
  "elements (fold (scalar_handler m j) hs w) = elements w"
  by (induction hs arbitrary: w) (simp_all add: scalar_handler_def)

lemma fold_scalar_handler_grows:
  "synced m w \<Longrightarrow> synced m (fold (scalar_handler m j) hs w)
     \<and> dom (settings_v w) \<subseteq> dom (settings_v (fold (scalar_handler m j) hs w))"
proof (induction hs arbitrary: w)
  case Nil
  then show ?case by simp
next
  case (Cons h hs)
  have step: "synced m (scalar_handler m j h w)"
    "dom (settings_v w) \<subseteq> dom (settings_v (scalar_handler m j h w))"
    using Cons.prems by (auto simp: scalar_handler_def synced_def)
  from Cons.IH [OF step(1)] step(2) show ?case by auto
qed

lemma fold_scalar_handler_last:
  "settings_v (fold (scalar_handler m j) (hs @ [key]) w) key = Some (JStr (value_of (elements w ! j)))
   \<and> persisted m (fold (scalar_handler m j) (hs @ [key]) w)
       = settings_v (fold (scalar_handler m j) (hs @ [key]) w)"
  by (simp add: scalar_handler_def)

lemma synced_radios [simp]: "synced m (w\<lparr>radios := l\<rparr>) = synced m w"
  by (simp add: synced_def)

lemma track_grows:
  assumes "synced m w"
  shows "synced m (track m key radio w)
     \<and> dom (settings_v w) \<subseteq> dom (settings_v (track m key radio w))"
proof -
  define w2 where "w2 = w\<lparr>radios :=
                    each_of radio (\<lambda>r. r\<lparr>r_handlers := r_handlers r @ [key]\<rparr>) (radios w)\<rparr>"
  have "synced m w2" "settings_v w2 = settings_v w"
    using assms by (simp_all add: w2_def)
  with fold_radio_change_grows [of m w2 radio] show ?thesis
    by (simp add: track_def w2_def [symmetric])
qed

lemma manage_radios_grows:
  assumes "synced m w"
  shows "synced m (page_of (manage_radios m query key radio w))
     \<and> dom (settings_v w) \<subseteq> dom (settings_v (page_of (manage_radios m query key radio w)))"
proof (cases "stored_value (settings_v w) key")
  case None
  with track_grows [OF assms] show ?thesis by (simp add: manage_radios_def)
next
  case stored: (Some x)
  show ?thesis
  proof (cases "query (to_string x)")
    case None
    with stored assms show ?thesis by (simp add: manage_radios_def)
  next
    case (Some test)
    from assms have "synced m (w\<lparr>radios := restore test radio (radios w)\<rparr>)" by simp
    from track_grows [OF this, of key radio] stored Some show ?thesis
      by (simp add: manage_radios_def)
  qed
qed

lemma manage_valued_grows:
  assumes "synced m w"
  shows "synced m (manage_valued m key j w)
     \<and> dom (settings_v w) \<subseteq> dom (settings_v (manage_valued m key j w))"
proof -
  define w1 where "w1 = (case stored_value (settings_v w) key of
                  None \<Rightarrow> w
                | Some x \<Rightarrow>
                    w\<lparr>elements := (elements w)[j := (elements w ! j)\<lparr>el_body := Valued (val_text x)\<rparr>]\<rparr>)"
  define w2 where "w2 = w1\<lparr>elements :=
                    (elements w1)[j := (elements w1 ! j)
                       \<lparr>el_handlers := el_handlers (elements w1 ! j) @ [key]\<rparr>]\<rparr>"
  have "synced m w2" "settings_v w2 = settings_v w"
    using assms by (auto simp: w2_def w1_def synced_def split: option.splits)
  with fold_scalar_handler_grows [of m w2 j] show ?thesis
    by (simp add: manage_valued_def Let_def w1_def [symmetric] w2_def [symmetric] element_change_def)
qed

lemma manage_element_grows:
  assumes "synced m w"
  shows "synced m (page_of (manage_element m query j w))
     \<and> dom (settings_v w) \<subseteq> dom (settings_v (page_of (manage_element m query j w)))"
  using manage_radios_grows [OF assms] manage_valued_grows [OF assms] assms
  by (auto simp: manage_element_def Let_def synced_def split: body.splits)

lemma each_grows:
  "synced m w \<Longrightarrow> synced m (page_of (each (manage_element m query) js w))
     \<and> dom (settings_v w) \<subseteq> dom (settings_v (page_of (each (manage_element m query) js w)))"
proof (induction js arbitrary: w)
  case Nil
  then show ?case by simp
next
  case (Cons j js)
  from manage_element_grows [OF Cons.prems, of query j]
  have step: "synced m (page_of (manage_element m query j w))"
    "dom (settings_v w) \<subseteq> dom (settings_v (page_of (manage_element m query j w)))" by simp_all
  show ?case
  proof (cases "manage_element m query j w")
    case (Returned w')
    with step have "synced m w'" "dom (settings_v w) \<subseteq> dom (settings_v w')" by simp_all
    with Cons.IH [of w'] Returned show ?thesis by auto
  next
    case (Thrown e w')
    with step show ?thesis by simp
  qed
qed

lemma each_append:
  "each body (js @ js') w =
     (case each body js w of
        Returned w' \<Rightarrow> each body js' w'
      | Thrown e w' \<Rightarrow> Thrown e w')"
  by (induction js arbitrary: w) (simp_all split: outcome.splits)

lemma manage_valued_fresh:
  assumes "j < length (elements w)" "stored_value (settings_v w) key = None"
    and "el_body (elements w ! j) = Valued s"
  shows "settings_v (manage_valued m key j w) key = Some (JStr s)"
    and "persisted m (manage_valued m key j w) = settings_v (manage_valued m key j w)"
  using assms
    fold_scalar_handler_last [of m j "el_handlers (elements w ! j)" key
      "w\<lparr>elements := (elements w)[j := (elements w ! j)
          \<lparr>el_handlers := el_handlers (elements w ! j) @ [key]\<rparr>]\<rparr>"]
  by (simp_all add: manage_valued_def element_change_def value_of_def)

lemma track_writes:
  assumes "\<forall>i \<in> set radio. i < length (radios w)"
  shows "filter (\<lambda>i. r_checked (radios w ! i)) radio \<noteq> [] \<longrightarrow>
           settings_v (track m key radio w) key =
             Some (JStr (value_prop (radios w ! last (filter (\<lambda>i. r_checked (radios w ! i)) radio))))
         \<and> persisted m (track m key radio w) = settings_v (track m key radio w)"
    and "filter (\<lambda>i. r_checked (radios w ! i)) radio = [] \<longrightarrow>
           settings_v (track m key radio w) = settings_v w
         \<and> persisted m (track m key radio w) = persisted m w"
proof -
  define w2 where "w2 = w\<lparr>radios :=
      each_of radio (\<lambda>r. r\<lparr>r_handlers := r_handlers r @ [key]\<rparr>) (radios w)\<rparr>"
  have res: "track m key radio w = fold (radio_change m) radio w2"
    by (simp add: track_def w2_def)
  have nth: "\<And>i. i \<in> set radio \<Longrightarrow>
      radios w2 ! i = (radios w ! i)\<lparr>r_handlers := r_handlers (radios w ! i) @ [key]\<rparr>"
    using assms by (simp add: w2_def)
  have on: "filter (\<lambda>i. r_checked (radios w2 ! i)) radio = filter (\<lambda>i. r_checked (radios w ! i)) radio"
    by (rule filter_cong) (simp_all add: nth)
  have hs: "\<forall>i \<in> set radio. \<exists>hs. r_handlers (radios w2 ! i) = hs @ [key]"
    by (simp add: nth)
  show "filter (\<lambda>i. r_checked (radios w ! i)) radio \<noteq> [] \<longrightarrow>
           settings_v (track m key radio w) key =
             Some (JStr (value_prop (radios w ! last (filter (\<lambda>i. r_checked (radios w ! i)) radio))))
         \<and> persisted m (track m key radio w) = settings_v (track m key radio w)"
  proof
    assume ne: "filter (\<lambda>i. r_checked (radios w ! i)) radio \<noteq> []"
    then have "last (filter (\<lambda>i. r_checked (radios w ! i)) radio) \<in> set radio"
      using last_in_set [OF ne] by auto
    then have v: "value_prop (radios w2 ! last (filter (\<lambda>i. r_checked (radios w ! i)) radio)) =
        value_prop (radios w ! last (filter (\<lambda>i. r_checked (radios w ! i)) radio))"
      by (simp add: nth value_prop_def)
    from ne have "filter (\<lambda>i. r_checked (radios w2 ! i)) radio \<noteq> []" by (simp add: on)
    from fold_radio_change_last [OF hs this, of m]
    show "settings_v (track m key radio w) key =
             Some (JStr (value_prop (radios w ! last (filter (\<lambda>i. r_checked (radios w ! i)) radio))))
         \<and> persisted m (track m key radio w) = settings_v (track m key radio w)"
      by (simp add: res on v)
  qed
  show "filter (\<lambda>i. r_checked (radios w ! i)) radio = [] \<longrightarrow>
           settings_v (track m key radio w) = settings_v w
         \<and> persisted m (track m key radio w) = persisted m w"
  proof
    assume "filter (\<lambda>i. r_checked (radios w ! i)) radio = []"
    then have "filter (\<lambda>i. r_checked (radios w2 ! i)) radio = []" by (simp add: on)
    from fold_radio_change_none [OF this, of m]
    show "settings_v (track m key radio w) = settings_v w
         \<and> persisted m (track m key radio w) = persisted m w"
      by (simp add: res w2_def)
  qed
qed

text \<open>
  C10. Take a matched element that the loop of \<^verbatim>\<open>$manage\<close> reaches, the body having
  returned for every matched element before it, with nothing stored under its id at
  that moment. The body returns for it too. A control with a value has its current
  value written into the in-memory mapping and persisted by the initial change event.
  A group of radio inputs with an option checked has the value of the last checked
  option written and persisted; a group with no option checked leaves the mapping and
  the persisted document as they were. Whatever has been written stays: the id is a
  key of the persisted document when \<^verbatim>\<open>$manage\<close> ends, be it that it returns or that the
  selector of a later group makes it throw.
\<close>

theorem initial_change_persists_default:
  assumes sel: "selected = before @ j # after"
    and w1: "each (manage_element m query) before (settings_load m w) = Returned w1"
    and j: "j < length (elements w1)"
    and key: "key = el_id (elements w1 ! j)"
    and none: "stored_value (settings_v w1) key = None"
  shows "returned (manage_element m query j w1)
       \<and> (el_body (elements w1 ! j) = Valued s \<longrightarrow>
            settings_v (page_of (manage_element m query j w1)) key = Some (JStr s)
          \<and> persisted m (page_of (manage_element m query j w1)) key = Some (JStr s)
          \<and> key \<in> dom (persisted m (page_of (manage m query selected w))))
       \<and> (el_body (elements w1 ! j) = Container rs
            \<and> filter (\<lambda>i. r_checked (radios w1 ! i)) (filter (\<lambda>i. i < length (radios w1)) rs) \<noteq> [] \<longrightarrow>
            settings_v (page_of (manage_element m query j w1)) key =
              Some (JStr (value_prop (radios w1 !
                last (filter (\<lambda>i. r_checked (radios w1 ! i)) (filter (\<lambda>i. i < length (radios w1)) rs)))))
          \<and> persisted m (page_of (manage_element m query j w1)) key =
              Some (JStr (value_prop (radios w1 !
                last (filter (\<lambda>i. r_checked (radios w1 ! i)) (filter (\<lambda>i. i < length (radios w1)) rs)))))
          \<and> key \<in> dom (persisted m (page_of (manage m query selected w))))
       \<and> (el_body (elements w1 ! j) = Container rs
            \<and> filter (\<lambda>i. r_checked (radios w1 ! i)) (filter (\<lambda>i. i < length (radios w1)) rs) = [] \<longrightarrow>
            settings_v (page_of (manage_element m query j w1)) = settings_v w1
          \<and> persisted m (page_of (manage_element m query j w1)) = persisted m w1)"
proof -
  define w2 where "w2 = page_of (manage_element m query j w1)"
  have radios_eq: "manage_radios m query (el_id (elements w1 ! j)) radio w1
      = Returned (track m (el_id (elements w1 ! j)) radio w1)" for radio
    using none unfolding key by (simp add: manage_radios_def)
  have ret: "returned (manage_element m query j w1)"
    by (simp add: manage_element_def Let_def radios_eq split: body.splits)
  then have step: "manage_element m query j w1 = Returned w2"
    unfolding w2_def by (cases "manage_element m query j w1") simp_all
  have "synced m (page_of (each (manage_element m query) before (settings_load m w)))"
    using each_grows [OF synced_load] by blast
  then have s1: "synced m w1" by (simp add: w1)
  then have s2: "synced m w2"
    unfolding w2_def using manage_element_grows by blast
  have final: "manage m query selected w = each (manage_element m query) after w2"
    by (simp add: manage_def sel each_append w1 step)
  have keeps: "k \<in> dom (settings_v w2) \<Longrightarrow> k \<in> dom (persisted m (page_of (manage m query selected w)))" for k
    using each_grows [OF s2, of query after] unfolding final synced_def by auto
  have valued: "el_body (elements w1 ! j) = Valued s \<longrightarrow>
            settings_v w2 key = Some (JStr s)
          \<and> persisted m w2 key = Some (JStr s)
          \<and> key \<in> dom (persisted m (page_of (manage m query selected w)))"
  proof
    assume b: "el_body (elements w1 ! j) = Valued s"
    then have eq: "w2 = manage_valued m key j w1"
      using j key by (simp add: w2_def manage_element_def)
    from manage_valued_fresh [OF j none b, of m]
    have "settings_v w2 key = Some (JStr s)" "persisted m w2 = settings_v w2"
      unfolding eq by simp_all
    with keeps [of key] show "settings_v w2 key = Some (JStr s)
          \<and> persisted m w2 key = Some (JStr s)
          \<and> key \<in> dom (persisted m (page_of (manage m query selected w)))" by auto
  qed
  let ?radio = "filter (\<lambda>i. i < length (radios w1)) rs"
  let ?on = "filter (\<lambda>i. r_checked (radios w1 ! i)) ?radio"
  have valid: "\<forall>i \<in> set ?radio. i < length (radios w1)" by simp
  note fresh = track_writes [OF valid, of m key]
  have some: "el_body (elements w1 ! j) = Container rs \<and> ?on \<noteq> [] \<longrightarrow>
            settings_v w2 key = Some (JStr (value_prop (radios w1 ! last ?on)))
          \<and> persisted m w2 key = Some (JStr (value_prop (radios w1 ! last ?on)))
          \<and> key \<in> dom (persisted m (page_of (manage m query selected w)))"
  proof
    assume a: "el_body (elements w1 ! j) = Container rs \<and> ?on \<noteq> []"
    then have ne: "?radio \<noteq> []" by (metis filter.simps(1))
    with a have eq: "w2 = track m key ?radio w1"
      using j key by (simp add: w2_def manage_element_def radios_eq)
    from fresh(1) a have "settings_v w2 key = Some (JStr (value_prop (radios w1 ! last ?on)))"
      "persisted m w2 = settings_v w2"
      unfolding eq by simp_all
    with keeps [of key] show "settings_v w2 key = Some (JStr (value_prop (radios w1 ! last ?on)))
          \<and> persisted m w2 key = Some (JStr (value_prop (radios w1 ! last ?on)))
          \<and> key \<in> dom (persisted m (page_of (manage m query selected w)))" by auto
  qed
  have unwritten: "el_body (elements w1 ! j) = Container rs \<and> ?on = [] \<longrightarrow>
            settings_v w2 = settings_v w1 \<and> persisted m w2 = persisted m w1"
  proof
    assume a: "el_body (elements w1 ! j) = Container rs \<and> ?on = []"
    show "settings_v w2 = settings_v w1 \<and> persisted m w2 = persisted m w1"
    proof (cases "?radio = []")
      case True
      with a show ?thesis using j by (simp add: w2_def manage_element_def)
    next
      case False
      with a have eq: "w2 = track m key ?radio w1"
        using j key by (simp add: w2_def manage_element_def radios_eq)
      from fresh(2) a show ?thesis unfolding eq by simp
    qed
  qed
  note parts = ret valued [unfolded w2_def] some [unfolded w2_def] unwritten [unfolded w2_def]
  from parts show ?thesis by (rule conjI [OF _ conjI [OF _ conjI]])
qed

theorem initial_change_persists_default_witness:
  "''speed'' \<in> dom (persisted draw (page_of (manage draw by_identifier [0, 1] form_page)))
   \<and> persisted draw (page_of (manage_element draw by_identifier 0 (settings_load draw form_page))) ''speed''
       = Some (JStr ''5'')
   \<and> ''tool'' \<in> dom (persisted draw (page_of (manage draw by_identifier [0, 1] form_page)))"
proof -
  define w1 where "w1 = page_of (each (manage_element draw by_identifier) [0] (settings_load draw form_page))"
  have a: "0 < length (elements (settings_load draw form_page))"
    by code_simp
  have b: "''speed'' = el_id (elements (settings_load draw form_page) ! 0)"
    by code_simp
  have c: "stored_value (settings_v (settings_load draw form_page)) ''speed'' = None"
    by code_simp
  have d: "el_body (elements (settings_load draw form_page) ! 0) = Valued ''5''"
    by code_simp
  have r0: "each (manage_element draw by_identifier) [] (settings_load draw form_page)
      = Returned (settings_load draw form_page)"
    by simp
  note one = initial_change_persists_default [where before = "[]" and after = "[1]" and s = "''5''",
      OF refl r0 a b c, THEN conjunct2, THEN conjunct1, rule_format, OF d]
  have "returned (each (manage_element draw by_identifier) [0] (settings_load draw form_page))"
    by code_simp
  then have r1: "each (manage_element draw by_identifier) [0] (settings_load draw form_page) = Returned w1"
    unfolding w1_def
    by (cases "each (manage_element draw by_identifier) [0] (settings_load draw form_page)") simp_all
  have a2: "1 < length (elements w1)"
    unfolding w1_def by code_simp
  have b2: "''tool'' = el_id (elements w1 ! 1)"
    unfolding w1_def by code_simp
  have c2: "stored_value (settings_v w1) ''tool'' = None"
    unfolding w1_def by code_simp
  have d2: "el_body (elements w1 ! 1) = Container [0, 1]
    \<and> filter (\<lambda>i. r_checked (radios w1 ! i)) (filter (\<lambda>i. i < length (radios w1)) [0, 1]) \<noteq> []"
    unfolding w1_def by code_simp
  note two = initial_change_persists_default [where before = "[0]" and after = "[]" and rs = "[0, 1]",
      OF refl r1 a2 b2 c2, THEN conjunct2, THEN conjunct2, THEN conjunct1, rule_format, OF d2]
  from one two show ?thesis by simp
qed

text \<open>
  The page of the radio group stored as \<^verbatim>\<open>"0.5"\<close>: the selector \<^verbatim>\<open>input[value=0.5]\<close> is
  rejected, \<^verbatim>\<open>$manage\<close> throws with the group unchecked, and the control after the
  group is neither bound nor persisted.
\<close>

lemma rejected_selector_ends_manage:
  "error_of (manage draw by_identifier [0, 1] decimal_page) = Some (SyntaxError ''input[value=0.5]'')
   \<and> map r_checked (radios (page_of (manage draw by_identifier [0, 1] decimal_page))) = [False, False]
   \<and> map el_handlers (elements (page_of (manage draw by_identifier [0, 1] decimal_page))) = [[], []]
   \<and> persisted draw (page_of (manage draw by_identifier [0, 1] decimal_page)) ''speed'' = None
   \<and> persisted draw (page_of (manage draw by_identifier [0, 1] decimal_page)) ''tool'' = Some (JStr ''0.5'')"
  by code_simp

lemma check_length [simp]: "length (check i l) = length l"
  by (simp add: check_def)

lemma check_nth:
  "i' < length l \<Longrightarrow>
     r_value (check i l ! i') = r_value (l ! i')
   \<and> r_name (check i l ! i') = r_name (l ! i')
   \<and> r_handlers (check i l ! i') = r_handlers (l ! i')
   \<and> (r_checked (check i l ! i') \<longrightarrow> i' = i \<or> r_checked (l ! i'))
   \<and> (i' = i \<longrightarrow> r_checked (check i l ! i'))"
  by (cases "i < length l") (auto simp: check_def nth_list_update)

lemma fold_check_length [simp]: "length (fold check ms l) = length l"
  by (induction ms arbitrary: l) simp_all

lemma fold_check_nth:
  "i' < length l \<Longrightarrow>
     r_value (fold check ms l ! i') = r_value (l ! i')
   \<and> r_name (fold check ms l ! i') = r_name (l ! i')
   \<and> r_handlers (fold check ms l ! i') = r_handlers (l ! i')
   \<and> (r_checked (fold check ms l ! i') \<longrightarrow> i' \<in> set ms \<or> r_checked (l ! i'))"
proof (induction ms arbitrary: l)
  case Nil
  then show ?case by simp
next
  case (Cons a ms)
  from Cons.prems have len: "i' < length (check a l)" by simp
  from Cons.IH [OF len] check_nth [OF Cons.prems, of a] show ?case by auto
qed

lemma fold_check_last:
  "ms \<noteq> [] \<Longrightarrow> \<forall>i \<in> set ms. i < length l \<Longrightarrow> r_checked (fold check ms l ! last ms)"
proof (induction ms arbitrary: l rule: rev_induct)
  case Nil
  then show ?case by simp
next
  case (snoc a ms)
  then have "a < length (fold check ms l)" by simp
  from check_nth [OF this, of a] show ?case by simp
qed

lemma uncheck_length [simp]: "length (uncheck radio l) = length l"
  by (simp add: uncheck_def)

lemma uncheck_nth:
  "i < length l \<Longrightarrow>
     uncheck radio l ! i = (if i \<in> set radio then (l ! i)\<lparr>r_checked := False\<rparr> else l ! i)"
  by (simp add: uncheck_def)

lemma restore_length [simp]: "length (restore test radio l) = length l"
  by (simp add: restore_def)

lemma restore_nth:
  assumes "i' < length l"
  shows "r_value (restore (by_value t) radio l ! i') = r_value (l ! i')"
    and "r_name (restore (by_value t) radio l ! i') = r_name (l ! i')"
    and "r_handlers (restore (by_value t) radio l ! i') = r_handlers (l ! i')"
    and "i' \<in> set radio \<Longrightarrow> r_checked (restore (by_value t) radio l ! i') \<Longrightarrow> r_value (l ! i') = Some t"
    and "i' \<notin> set radio \<Longrightarrow> r_checked (restore (by_value t) radio l ! i') \<Longrightarrow> r_checked (l ! i')"
proof -
  let ?u = "uncheck radio l"
  let ?ms = "filter (by_value t ?u) radio"
  have len: "i' < length ?u" using assms(1) by simp
  note f = fold_check_nth [OF len, of ?ms]
  show "r_value (restore (by_value t) radio l ! i') = r_value (l ! i')"
    "r_name (restore (by_value t) radio l ! i') = r_name (l ! i')"
    "r_handlers (restore (by_value t) radio l ! i') = r_handlers (l ! i')"
    using f assms(1) by (simp_all add: restore_def uncheck_nth)
  show "r_value (l ! i') = Some t" if "i' \<in> set radio" "r_checked (restore (by_value t) radio l ! i')"
    using f that assms(1) by (auto simp: restore_def uncheck_nth by_value_def)
  show "r_checked (l ! i')" if "i' \<notin> set radio" "r_checked (restore (by_value t) radio l ! i')"
    using f that assms(1) by (auto simp: restore_def uncheck_nth)
qed

lemma restore_checks_one:
  assumes "\<forall>i \<in> set radio. i < length l" "i0 \<in> set radio" "r_value (l ! i0) = Some t"
  shows "\<exists>i \<in> set radio. r_checked (restore (by_value t) radio l ! i)"
proof -
  let ?u = "uncheck radio l"
  let ?ms = "filter (by_value t ?u) radio"
  from assms have "by_value t ?u i0" by (simp add: by_value_def uncheck_nth)
  with assms(2) have ne: "?ms \<noteq> []" by (auto simp: filter_empty_conv)
  have valid: "\<forall>i \<in> set ?ms. i < length ?u" using assms(1) by simp
  have "last ?ms \<in> set ?ms" using ne by (rule last_in_set)
  then have "last ?ms \<in> set radio" by simp
  with fold_check_last [OF ne valid] show ?thesis unfolding restore_def by blast
qed

lemma radio_handler_fields [simp]:
  "radios (radio_handler m i h w) = radios w"
  "elements (radio_handler m i h w) = elements w"
  by (simp_all add: radio_handler_def)

lemma fold_radio_handler_keyed:
  assumes "set hs \<subseteq> {k}" "r_checked (radios w ! i)" "hs \<noteq> []"
  shows "settings_v (fold (radio_handler m i) hs w) = (settings_v w)(k \<mapsto> JStr (value_prop (radios w ! i)))
       \<and> persisted m (fold (radio_handler m i) hs w) = settings_v (fold (radio_handler m i) hs w)"
  using assms
proof (induction hs arbitrary: w)
  case Nil
  then show ?case by simp
next
  case (Cons h hs)
  then have h: "h = k" by simp
  define w' where "w' = radio_handler m i h w"
  have one: "settings_v w' = (settings_v w)(k \<mapsto> JStr (value_prop (radios w ! i)))"
    "persisted m w' = settings_v w'" "radios w' = radios w"
    using Cons.prems(2) by (simp_all add: radio_handler_def h w'_def)
  have unfold: "fold (radio_handler m i) (h # hs) w = fold (radio_handler m i) hs w'"
    by (simp add: w'_def)
  show ?case
  proof (cases "hs = []")
    case True
    with one show ?thesis unfolding unfold by simp
  next
    case False
    from Cons.prems have "set hs \<subseteq> {k}" "r_checked (radios w' ! i)"
      by (simp_all add: one(3))
    note ih = Cons.IH [OF this False]
    from ih have p: "persisted m (fold (radio_handler m i) hs w') = settings_v (fold (radio_handler m i) hs w')"
      by (rule conjunct2)
    from ih have "settings_v (fold (radio_handler m i) hs w') =
        (settings_v w')(k \<mapsto> JStr (value_prop (radios w' ! i)))"
      by (rule conjunct1)
    then have "settings_v (fold (radio_handler m i) hs w') =
        (settings_v w)(k \<mapsto> JStr (value_prop (radios w ! i)))"
      by (simp only: one fun_upd_upd)
    then show ?thesis unfolding unfold using p by (rule conjI)
  qed
qed

lemma radio_change_keyed:
  assumes "set (r_handlers (radios w ! i)) \<subseteq> {k}" "r_handlers (radios w ! i) \<noteq> []"
    and "r_checked (radios w ! i)"
  shows "settings_v (radio_change m i w) = (settings_v w)(k \<mapsto> JStr (value_prop (radios w ! i)))"
    and "persisted m (radio_change m i w) = settings_v (radio_change m i w)"
  using fold_radio_handler_keyed [OF assms(1,3,2), of m] unfolding radio_change_def by simp_all

lemma fold_radio_change_keyed:
  assumes "\<forall>i \<in> set is. set (r_handlers (radios w ! i)) \<subseteq> {k} \<and> r_handlers (radios w ! i) \<noteq> []"
    and "\<exists>i \<in> set is. r_checked (radios w ! i)"
  shows "\<exists>i \<in> set is. r_checked (radios w ! i)
       \<and> settings_v (fold (radio_change m) is w) = (settings_v w)(k \<mapsto> JStr (value_prop (radios w ! i)))
       \<and> persisted m (fold (radio_change m) is w) = settings_v (fold (radio_change m) is w)"
  using assms
proof (induction "is" rule: rev_induct)
  case Nil
  then show ?case by simp
next
  case (snoc i "is")
  define w' where "w' = fold (radio_change m) is w"
  have rad: "radios w' = radios w" by (simp add: w'_def)
  have unfold: "fold (radio_change m) (is @ [i]) w = radio_change m i w'"
    by (simp add: w'_def)
  from snoc.prems(1) have hs: "set (r_handlers (radios w' ! i)) \<subseteq> {k}" "r_handlers (radios w' ! i) \<noteq> []"
    by (simp_all add: rad)
  from snoc.prems(1) have rest: "\<forall>i \<in> set is. set (r_handlers (radios w ! i)) \<subseteq> {k}
        \<and> r_handlers (radios w ! i) \<noteq> []" by simp
  show ?case
  proof (cases "r_checked (radios w ! i)")
    case False
    then have same: "radio_change m i w' = w'"
      using rad by (simp add: radio_change_unchecked)
    from False snoc.prems(2) have ex: "\<exists>i \<in> set is. r_checked (radios w ! i)" by auto
    from snoc.IH [OF rest ex] obtain i0 where i0: "i0 \<in> set is" "r_checked (radios w ! i0)"
      "settings_v w' = (settings_v w)(k \<mapsto> JStr (value_prop (radios w ! i0)))"
      "persisted m w' = settings_v w'"
      unfolding w'_def by blast
    from i0(1) have "i0 \<in> set (is @ [i])" by simp
    with i0(2-4) show ?thesis unfolding unfold same by blast
  next
    case True
    then have c: "r_checked (radios w' ! i)" by (simp add: rad)
    note last = radio_change_keyed [OF hs c, of m]
    have v: "settings_v (radio_change m i w') = (settings_v w)(k \<mapsto> JStr (value_prop (radios w ! i)))"
    proof (cases "\<exists>i \<in> set is. r_checked (radios w ! i)")
      case False
      then have "filter (\<lambda>i. r_checked (radios w ! i)) is = []"
        by (simp add: filter_empty_conv)
      then have "w' = w" unfolding w'_def by (rule fold_radio_change_none)
      with last(1) show ?thesis by simp
    next
      case ex: True
      from snoc.IH [OF rest ex] obtain i0 where
        "settings_v w' = (settings_v w)(k \<mapsto> JStr (value_prop (radios w ! i0)))"
        unfolding w'_def by blast
      with last(1) show ?thesis by (simp only: rad fun_upd_upd)
    qed
    have "i \<in> set (is @ [i])" by simp
    with True v last(2) show ?thesis unfolding unfold by blast
  qed
qed

lemma radios_step_eq:
  "radios_step m key radio w =
     (let w1 = (case stored_value (settings_v w) key of
                  None \<Rightarrow> w
                | Some x \<Rightarrow> w\<lparr>radios := restore (by_value (to_string x)) radio (radios w)\<rparr>);
          w2 = w1\<lparr>radios :=
                    each_of radio (\<lambda>r. r\<lparr>r_handlers := r_handlers r @ [key]\<rparr>) (radios w1)\<rparr>
      in fold (radio_change m) radio w2)"
  by (simp add: radios_step_def manage_radios_def exact_def track_def Let_def split: option.splits)

lemma element_step_eq:
  "element_step m j w =
     (if j < length (elements w)
      then (let key = el_id (elements w ! j) in
            case el_body (elements w ! j) of
              Container rs \<Rightarrow>
                (let radio = filter (\<lambda>i. i < length (radios w)) rs in
                 if radio \<noteq> [] then radios_step m key radio w
                 else w\<lparr>console := console w @ [IncompatibleElement j]\<rparr>)
            | Valued s \<Rightarrow> manage_valued m key j w)
      else w)"
  by (simp add: element_step_def manage_element_def radios_step_def Let_def split: body.splits)

lemma element_step_grows:
  assumes "synced m w"
  shows "synced m (element_step m j w)
     \<and> dom (settings_v w) \<subseteq> dom (settings_v (element_step m j w))"
  unfolding element_step_def using assms by (rule manage_element_grows)

lemma radios_step_elements [simp]:
  "elements (radios_step m k radio w) = elements w"
  by (simp add: radios_step_eq Let_def split: option.splits)

lemma radios_step_radios:
  "radios (radios_step m k radio w) =
     each_of radio (\<lambda>r. r\<lparr>r_handlers := r_handlers r @ [k]\<rparr>)
       (case stored_value (settings_v w) k of
          None \<Rightarrow> radios w
        | Some x \<Rightarrow> restore (by_value (to_string x)) radio (radios w))"
  by (simp add: radios_step_eq Let_def split: option.splits)

lemma radios_step_length [simp]:
  "length (radios (radios_step m k radio w)) = length (radios w)"
  by (simp add: radios_step_radios split: option.splits)

lemma radios_step_nth:
  assumes "i < length (radios w)"
  shows "r_value (radios (radios_step m k radio w) ! i) = r_value (radios w ! i)"
    and "r_name (radios (radios_step m k radio w) ! i) = r_name (radios w ! i)"
    and "r_handlers (radios (radios_step m k radio w) ! i) =
           (if i \<in> set radio then r_handlers (radios w ! i) @ [k] else r_handlers (radios w ! i))"
    and "i \<notin> set radio \<Longrightarrow> r_checked (radios (radios_step m k radio w) ! i) \<Longrightarrow>
           r_checked (radios w ! i)"
  using assms restore_nth [OF assms, where radio = radio]
  by (auto simp: radios_step_radios split: option.splits)

lemma radios_step_checked:
  assumes "i < length (radios w)" "i \<in> set radio" "r_checked (radios (radios_step m k radio w) ! i)"
  shows "case stored_value (settings_v w) k of
           None \<Rightarrow> r_checked (radios w ! i)
         | Some x \<Rightarrow> r_value (radios w ! i) = Some (to_string x)"
  using assms restore_nth(4) [OF assms(1,2), where t = "to_string (the (stored_value (settings_v w) k))"]
  by (auto simp: radios_step_radios split: option.splits)

lemma radios_step_settings:
  assumes valid: "\<forall>i \<in> set radio. i < length (radios w)"
    and keyed: "\<forall>i \<in> set radio. set (r_handlers (radios w ! i)) \<subseteq> {k}"
  shows "(\<exists>i \<in> set radio. r_checked (radios (radios_step m k radio w) ! i)
            \<and> settings_v (radios_step m k radio w) =
                (settings_v w)(k \<mapsto> JStr (value_prop (radios w ! i)))
            \<and> persisted m (radios_step m k radio w) = settings_v (radios_step m k radio w))
       \<or> ((\<forall>i \<in> set radio. \<not> r_checked (radios (radios_step m k radio w) ! i))
            \<and> settings_v (radios_step m k radio w) = settings_v w
            \<and> persisted m (radios_step m k radio w) = persisted m w)"
proof -
  define w1 where "w1 = (case stored_value (settings_v w) k of
        None \<Rightarrow> w | Some x \<Rightarrow> w\<lparr>radios := restore (by_value (to_string x)) radio (radios w)\<rparr>)"
  define w2 where "w2 = w1\<lparr>radios :=
      each_of radio (\<lambda>r. r\<lparr>r_handlers := r_handlers r @ [k]\<rparr>) (radios w1)\<rparr>"
  have res: "radios_step m k radio w = fold (radio_change m) radio w2"
    by (simp add: radios_step_eq Let_def w1_def w2_def)
  have rad: "radios (radios_step m k radio w) = radios w2"
    by (simp add: res)
  have v2: "settings_v w2 = settings_v w" "persisted m w2 = persisted m w"
    by (simp_all add: w2_def w1_def split: option.splits)
  have hs_i: "r_handlers (radios w2 ! i) = r_handlers (radios w ! i) @ [k]" if "i \<in> set radio" for i
    using radios_step_nth(3) [of i w m k radio] valid that by (simp add: rad)
  have hs: "\<forall>i \<in> set radio. set (r_handlers (radios w2 ! i)) \<subseteq> {k} \<and> r_handlers (radios w2 ! i) \<noteq> []"
    using keyed by (simp add: hs_i)
  have val: "value_prop (radios w2 ! i) = value_prop (radios w ! i)" if "i \<in> set radio" for i
    using radios_step_nth(1) [of i w m k radio] valid that by (simp add: rad value_prop_def)
  show ?thesis
  proof (cases "\<exists>i \<in> set radio. r_checked (radios w2 ! i)")
    case True
    from fold_radio_change_keyed [OF hs True, of m] obtain i where
      i: "i \<in> set radio" "r_checked (radios w2 ! i)"
        "settings_v (fold (radio_change m) radio w2) = (settings_v w2)(k \<mapsto> JStr (value_prop (radios w2 ! i)))"
        "persisted m (fold (radio_change m) radio w2) = settings_v (fold (radio_change m) radio w2)"
      by blast
    from i(3) have "settings_v (radios_step m k radio w) =
        (settings_v w)(k \<mapsto> JStr (value_prop (radios w ! i)))"
      by (simp only: res v2 val [OF i(1)])
    moreover from i(2) have "r_checked (radios (radios_step m k radio w) ! i)"
      by (simp only: rad)
    moreover from i(4) have "persisted m (radios_step m k radio w) = settings_v (radios_step m k radio w)"
      by (simp only: res)
    ultimately show ?thesis using i(1) by blast
  next
    case False
    then have "filter (\<lambda>i. r_checked (radios w2 ! i)) radio = []"
      by (simp add: filter_empty_conv)
    then have "fold (radio_change m) radio w2 = w2" by (rule fold_radio_change_none)
    then have same: "radios_step m k radio w = w2" by (simp only: res)
    from False have "\<forall>i \<in> set radio. \<not> r_checked (radios (radios_step m k radio w) ! i)"
      by (simp only: rad) simp
    moreover have "settings_v (radios_step m k radio w) = settings_v w"
      "persisted m (radios_step m k radio w) = persisted m w"
      by (simp_all only: same v2)
    ultimately show ?thesis by blast
  qed
qed

lemma stored_value_JStr: "stored_value v k = Some (JStr s) \<Longrightarrow> v k = Some (JStr s)"
  by (auto simp: stored_value_def split: option.splits jsval.splits)

lemma stored_value_upd [simp]: "stored_value (v(k \<mapsto> JStr s)) k = Some (JStr s)"
  by (simp add: stored_value_def)

lemma radios_step_settles:
  assumes valid: "\<forall>i \<in> set radio. i < length (radios w)"
    and keyed: "\<forall>i \<in> set radio. set (r_handlers (radios w ! i)) \<subseteq> {k}"
  shows "settled_group (settings_v (radios_step m k radio w))
           (radios (radios_step m k radio w)) k radio"
proof -
  let ?w = "radios_step m k radio w"
  from radios_step_settings [OF valid keyed, of m]
  consider i where "settings_v ?w = (settings_v w)(k \<mapsto> JStr (value_prop (radios w ! i)))"
    | "\<forall>i \<in> set radio. \<not> r_checked (radios ?w ! i)" "settings_v ?w = settings_v w"
    by blast
  then show ?thesis
  proof cases
    case 1
    then show ?thesis by (simp add: settled_group_def)
  next
    case 2
    show ?thesis
    proof (cases "stored_value (settings_v w) k")
      case None
      with 2 show ?thesis by (simp add: settled_group_def)
    next
      case (Some x)
      have "r_value (radios ?w ! i) \<noteq> Some (to_string x)" if "i \<in> set radio" for i
      proof
        assume "r_value (radios ?w ! i) = Some (to_string x)"
        with that valid have "r_value (radios w ! i) = Some (to_string x)"
          by (simp add: radios_step_nth(1))
        from restore_checks_one [OF valid that this] obtain i1 where
          "i1 \<in> set radio" "r_checked (restore (by_value (to_string x)) radio (radios w) ! i1)" by blast
        with valid Some have "r_checked (radios ?w ! i1)"
          by (simp add: radios_step_radios)
        with 2(1) \<open>i1 \<in> set radio\<close> show False by blast
      qed
      with Some 2(2) show ?thesis
        by (auto simp: settled_group_def split: jsval.splits)
    qed
  qed
qed

lemma radios_step_settled_same:
  assumes valid: "\<forall>i \<in> set radio. i < length (radios w)"
    and keyed: "\<forall>i \<in> set radio. set (r_handlers (radios w ! i)) \<subseteq> {k}"
    and settled: "settled_group (settings_v w) (radios w) k radio"
    and synced: "synced m w"
  shows "settings_v (radios_step m k radio w) = settings_v w"
    and "persisted m (radios_step m k radio w) = persisted m w"
proof -
  let ?w = "radios_step m k radio w"
  have "settings_v ?w = settings_v w \<and> persisted m ?w = persisted m w"
  proof -
    from radios_step_settings [OF valid keyed, of m]
    consider i where "i \<in> set radio" "r_checked (radios ?w ! i)"
        "settings_v ?w = (settings_v w)(k \<mapsto> JStr (value_prop (radios w ! i)))"
        "persisted m ?w = settings_v ?w"
      | "settings_v ?w = settings_v w" "persisted m ?w = persisted m w"
      by blast
    then show ?thesis
    proof cases
      case 1
      from valid 1(1) have len: "i < length (radios w)" by simp
      note c = radios_step_checked [OF len 1(1,2)]
      have triv: "(settings_v w)(k \<mapsto> JStr (value_prop (radios w ! i))) = settings_v w"
      proof (cases "stored_value (settings_v w) k")
        case None
        with c have "r_checked (radios w ! i)" by simp
        moreover from None settled 1(1) have "\<not> r_checked (radios w ! i)"
          by (simp add: settled_group_def)
        ultimately show ?thesis by (rule notE [rotated])
      next
        case (Some x)
        with c have val: "r_value (radios w ! i) = Some (to_string x)" by simp
        have "\<exists>s. x = JStr s"
        proof (rule ccontr)
          assume "\<not> (\<exists>s. x = JStr s)"
          with settled Some have "\<forall>i \<in> set radio. r_value (radios w ! i) \<noteq> Some (to_string x)"
            by (cases x) (simp_all add: settled_group_def del: to_string.simps)
          with val 1(1) show False by blast
        qed
        then obtain s where x: "x = JStr s" by blast
        from Some have "stored_value (settings_v w) k = Some (JStr s)" by (simp only: x)
        then have "settings_v w k = Some (JStr s)" by (rule stored_value_JStr)
        moreover from val x have "value_prop (radios w ! i) = s" by (simp add: value_prop_def)
        ultimately show ?thesis by (simp only: map_upd_triv)
      qed
      from 1(3) triv have v: "settings_v ?w = settings_v w" by (rule trans)
      from synced have "settings_v w = persisted m w" by (simp only: synced_def)
      with v have "settings_v ?w = persisted m w" by (rule trans)
      with 1(4) have "persisted m ?w = persisted m w" by (rule trans)
      with v show ?thesis by (rule conjI)
    next
      case 2
      then show ?thesis by simp
    qed
  qed
  then show "settings_v ?w = settings_v w" "persisted m ?w = persisted m w" by simp_all
qed

lemma scalar_handler_fields [simp]:
  "radios (scalar_handler m j h w) = radios w"
  "elements (scalar_handler m j h w) = elements w"
  by (simp_all add: scalar_handler_def)

lemma fold_scalar_handler_keyed:
  assumes "set hs \<subseteq> {k}" "hs \<noteq> []"
  shows "settings_v (fold (scalar_handler m j) hs w) = (settings_v w)(k \<mapsto> JStr (value_of (elements w ! j)))
       \<and> persisted m (fold (scalar_handler m j) hs w) = settings_v (fold (scalar_handler m j) hs w)"
  using assms
proof (induction hs arbitrary: w)
  case Nil
  then show ?case by simp
next
  case (Cons h hs)
  then have h: "h = k" by simp
  define w' where "w' = scalar_handler m j h w"
  have one: "settings_v w' = (settings_v w)(k \<mapsto> JStr (value_of (elements w ! j)))"
    "persisted m w' = settings_v w'" "elements w' = elements w"
    by (simp_all add: scalar_handler_def h w'_def)
  have unfold: "fold (scalar_handler m j) (h # hs) w = fold (scalar_handler m j) hs w'"
    by (simp add: w'_def)
  show ?case
  proof (cases "hs = []")
    case True
    with one show ?thesis unfolding unfold by simp
  next
    case False
    from Cons.prems have "set hs \<subseteq> {k}" by simp
    note ih = Cons.IH [OF this False, of w']
    from ih have p: "persisted m (fold (scalar_handler m j) hs w') = settings_v (fold (scalar_handler m j) hs w')"
      by (rule conjunct2)
    from ih have "settings_v (fold (scalar_handler m j) hs w') =
        (settings_v w')(k \<mapsto> JStr (value_of (elements w' ! j)))"
      by (rule conjunct1)
    then have "settings_v (fold (scalar_handler m j) hs w') =
        (settings_v w)(k \<mapsto> JStr (value_of (elements w ! j)))"
      by (simp only: one fun_upd_upd)
    then show ?thesis unfolding unfold using p by (rule conjI)
  qed
qed

lemma manage_valued_radios [simp]: "radios (manage_valued m k j w) = radios w"
  by (simp add: manage_valued_def Let_def element_change_def split: option.splits)

lemma manage_valued_elements:
  "j < length (elements w) \<Longrightarrow> elements (manage_valued m k j w) =
     (elements w)[j := (elements w ! j)
        \<lparr>el_body := (case stored_value (settings_v w) k of
                       None \<Rightarrow> el_body (elements w ! j)
                     | Some x \<Rightarrow> Valued (val_text x)),
         el_handlers := el_handlers (elements w ! j) @ [k]\<rparr>]"
  by (simp add: manage_valued_def Let_def element_change_def split: option.splits)

lemma manage_valued_settings:
  assumes "j < length (elements w)" "el_body (elements w ! j) = Valued s"
    and "set (el_handlers (elements w ! j)) \<subseteq> {k}"
  shows "settings_v (manage_valued m k j w) =
           (settings_v w)(k \<mapsto> JStr (restored_value (settings_v w) k s))"
    and "persisted m (manage_valued m k j w) = settings_v (manage_valued m k j w)"
proof -
  define w1 where "w1 = (case stored_value (settings_v w) k of
        None \<Rightarrow> w
      | Some x \<Rightarrow> w\<lparr>elements := (elements w)[j := (elements w ! j)\<lparr>el_body := Valued (val_text x)\<rparr>]\<rparr>)"
  define w2 where "w2 = w1\<lparr>elements :=
      (elements w1)[j := (elements w1 ! j)\<lparr>el_handlers := el_handlers (elements w1 ! j) @ [k]\<rparr>]\<rparr>"
  have res: "manage_valued m k j w = fold (scalar_handler m j) (el_handlers (elements w2 ! j)) w2"
    by (simp add: manage_valued_def Let_def w1_def w2_def element_change_def)
  have hs: "el_handlers (elements w2 ! j) = el_handlers (elements w ! j) @ [k]"
    using assms(1) by (simp add: w2_def w1_def split: option.splits)
  have val: "value_of (elements w2 ! j) = restored_value (settings_v w) k s"
    using assms(1,2) by (simp add: w2_def w1_def value_of_def restored_value_def split: option.splits)
  have v2: "settings_v w2 = settings_v w"
    by (simp add: w2_def w1_def split: option.splits)
  have "set (el_handlers (elements w2 ! j)) \<subseteq> {k}" "el_handlers (elements w2 ! j) \<noteq> []"
    using assms(3) by (simp_all add: hs)
  note f = fold_scalar_handler_keyed [OF this, of m j w2]
  from f have "settings_v (manage_valued m k j w) =
      (settings_v w2)(k \<mapsto> JStr (value_of (elements w2 ! j)))"
    unfolding res by (rule conjunct1)
  then show "settings_v (manage_valued m k j w) =
           (settings_v w)(k \<mapsto> JStr (restored_value (settings_v w) k s))"
    by (simp only: v2 val)
  from f show "persisted m (manage_valued m k j w) = settings_v (manage_valued m k j w)"
    unfolding res by (rule conjunct2)
qed

lemma manage_valued_settled_same:
  assumes "j < length (elements w)" "el_body (elements w ! j) = Valued s"
    and "set (el_handlers (elements w ! j)) \<subseteq> {k}"
    and "settings_v w k = Some (JStr s')" and "synced m w"
  shows "settings_v (manage_valued m k j w) = settings_v w"
    and "persisted m (manage_valued m k j w) = persisted m w"
proof -
  from assms(4) have "restored_value (settings_v w) k s = s'"
    by (simp add: restored_value_def stored_value_def val_text_def)
  with manage_valued_settings(1) [OF assms(1-3), of m]
  have "settings_v (manage_valued m k j w) = (settings_v w)(k \<mapsto> JStr s')"
    by (simp only:)
  also have "\<dots> = settings_v w"
    using assms(4) by (rule map_upd_triv)
  finally show v: "settings_v (manage_valued m k j w) = settings_v w" .
  from assms(5) have "settings_v w = persisted m w" by (simp only: synced_def)
  with v have "settings_v (manage_valued m k j w) = persisted m w" by (rule trans)
  with manage_valued_settings(2) [OF assms(1-3), of m]
  show "persisted m (manage_valued m k j w) = persisted m w" by (rule trans)
qed

lemma radios_in_valid: "i \<in> set (radios_in w j) \<Longrightarrow> i < length (radios w)"
  unfolding radios_in_def
  by (cases "j < length (elements w)"; cases "el_body (elements w ! j)"; simp)


lemma radios_in_valued:
  "el_body (elements w ! j) = Valued s \<Longrightarrow> radios_in w j = []"
  by (simp add: radios_in_def)

lemma radios_in_console [simp]: "radios_in (w\<lparr>console := c\<rparr>) j = radios_in w j"
  unfolding radios_in_def by (simp cong: body.case_cong)

lemma frame_refl: "frame j w w"
  by (simp add: frame_def)

lemma frame_console: "frame j w (w\<lparr>console := c\<rparr>)"
  by (simp add: frame_def)

lemma frame_radios_in:
  assumes "frame j w w'"
  shows "radios_in w' j' = radios_in w j'"
proof (cases "j' < length (elements w)")
  case True
  with assms have "container_of (elements w' ! j') = container_of (elements w ! j')"
    "length (elements w') = length (elements w)" "length (radios w') = length (radios w)"
    by (simp_all add: frame_def)
  with True show ?thesis
    unfolding radios_in_def container_of_def
    by (cases "el_body (elements w ! j')"; cases "el_body (elements w' ! j')"; simp)
next
  case False
  with assms have "\<not> j' < length (elements w')" by (simp add: frame_def)
  with False show ?thesis by (simp add: radios_in_def)
qed

lemma element_step_valued:
  "j < length (elements w) \<Longrightarrow> el_body (elements w ! j) = Valued s \<Longrightarrow>
     element_step m j w = manage_valued m (el_id (elements w ! j)) j w"
  by (simp add: element_step_eq)

lemma element_step_container:
  "j < length (elements w) \<Longrightarrow> el_body (elements w ! j) = Container rs \<Longrightarrow>
     element_step m j w =
       (if radios_in w j \<noteq> [] then radios_step m (el_id (elements w ! j)) (radios_in w j) w
        else w\<lparr>console := console w @ [IncompatibleElement j]\<rparr>)"
  by (simp add: element_step_eq radios_in_def Let_def)

lemma element_step_beyond:
  "\<not> j < length (elements w) \<Longrightarrow> element_step m j w = w"
  by (simp add: element_step_eq)

lemma element_step_frame: "frame j w (element_step m j w)"
proof (cases "j < length (elements w)")
  case False
  then show ?thesis by (simp add: element_step_beyond frame_refl)
next
  case True
  show ?thesis
  proof (cases "el_body (elements w ! j)")
    case (Valued s)
    show ?thesis
      unfolding element_step_valued [OF True Valued]
      using True Valued
      by (auto simp: frame_def manage_valued_elements nth_list_update container_of_def
          split: option.splits)
  next
    case (Container rs)
    show ?thesis
    proof (cases "radios_in w j \<noteq> []")
      case False
      then show ?thesis
        unfolding element_step_container [OF True Container]
        by (simp add: frame_console)
    next
      case ne: True
      have "frame j w (radios_step m (el_id (elements w ! j)) (radios_in w j) w)"
        unfolding frame_def
        using radios_step_nth [where w = w and m = m and k = "el_id (elements w ! j)"
            and radio = "radios_in w j"]
        by auto
      with ne show ?thesis
        unfolding element_step_container [OF True Container] by simp
    qed
  qed
qed

lemma step_keyed:
  assumes "keyed w j"
  shows "keyed (element_step m j w) j"
proof (cases "j < length (elements w)")
  case False
  with assms show ?thesis by (simp add: element_step_beyond)
next
  case True
  note fr = element_step_frame [of j w m]
  from fr True have id: "el_id (elements (element_step m j w) ! j) = el_id (elements w ! j)"
    by (simp add: frame_def)
  note rin = frame_radios_in [OF fr, of j]
  from assms True have k: "set (el_handlers (elements w ! j)) \<subseteq> {el_id (elements w ! j)}"
    "\<forall>i \<in> set (radios_in w j). set (r_handlers (radios w ! i)) \<subseteq> {el_id (elements w ! j)}"
    by (simp_all add: keyed_def)
  show ?thesis
  proof (cases "el_body (elements w ! j)")
    case (Valued s)
    have "set (el_handlers (elements (element_step m j w) ! j)) \<subseteq> {el_id (elements w ! j)}"
      unfolding element_step_valued [OF True Valued]
      using True k(1) by (simp add: manage_valued_elements)
    moreover have "radios_in w j = []" using Valued by (rule radios_in_valued)
    ultimately show ?thesis by (simp add: keyed_def id rin)
  next
    case (Container rs)
    show ?thesis
    proof (cases "radios_in w j \<noteq> []")
      case False
      then show ?thesis
        unfolding element_step_container [OF True Container]
        using k(1) by (simp add: keyed_def)
    next
      case ne: True
      have eq: "element_step m j w = radios_step m (el_id (elements w ! j)) (radios_in w j) w"
        unfolding element_step_container [OF True Container] using ne by simp
      have "set (r_handlers (radios (element_step m j w) ! i)) \<subseteq> {el_id (elements w ! j)}"
        if "i \<in> set (radios_in w j)" for i
        using that k(2) radios_in_valid [OF that]
        by (simp add: eq radios_step_nth(3))
      moreover have "set (el_handlers (elements (element_step m j w) ! j)) \<subseteq> {el_id (elements w ! j)}"
        using k(1) by (simp add: eq)
      ultimately show ?thesis by (simp add: keyed_def id rin)
    qed
  qed
qed

lemma step_settles:
  assumes "keyed w j"
  shows "settled (element_step m j w) j"
proof (cases "j < length (elements w)")
  case False
  then show ?thesis by (simp add: element_step_beyond settled_def)
next
  case True
  note fr = element_step_frame [of j w m]
  from fr True have id: "el_id (elements (element_step m j w) ! j) = el_id (elements w ! j)"
    and co: "container_of (elements (element_step m j w) ! j) = container_of (elements w ! j)"
    by (simp_all add: frame_def)
  note rin = frame_radios_in [OF fr, of j]
  from assms True have k: "set (el_handlers (elements w ! j)) \<subseteq> {el_id (elements w ! j)}"
    "\<forall>i \<in> set (radios_in w j). set (r_handlers (radios w ! i)) \<subseteq> {el_id (elements w ! j)}"
    by (simp_all add: keyed_def)
  show ?thesis
  proof (cases "el_body (elements w ! j)")
    case (Valued s)
    with co obtain s1 where b: "el_body (elements (element_step m j w) ! j) = Valued s1"
      by (cases "el_body (elements (element_step m j w) ! j)") (simp_all add: container_of_def)
    from manage_valued_settings(1) [OF True Valued k(1), of m]
    have "settings_v (element_step m j w) (el_id (elements w ! j)) =
        Some (JStr (restored_value (settings_v w) (el_id (elements w ! j)) s))"
      unfolding element_step_valued [OF True Valued] by simp
    with b show ?thesis by (simp add: settled_def id)
  next
    case (Container rs)
    with co obtain rs1 where b: "el_body (elements (element_step m j w) ! j) = Container rs1"
      by (cases "el_body (elements (element_step m j w) ! j)") (simp_all add: container_of_def)
    show ?thesis
    proof (cases "radios_in w j \<noteq> []")
      case False
      with b show ?thesis
        by (simp add: settled_def id rin settled_group_def split: option.splits jsval.splits)
    next
      case ne: True
      have eq: "element_step m j w = radios_step m (el_id (elements w ! j)) (radios_in w j) w"
        unfolding element_step_container [OF True Container] using ne by simp
      have valid: "\<forall>i \<in> set (radios_in w j). i < length (radios w)"
        using radios_in_valid by blast
      from radios_step_settles [OF valid k(2), of m]
      have "settled_group (settings_v (element_step m j w)) (radios (element_step m j w))
          (el_id (elements w ! j)) (radios_in w j)"
        by (simp only: eq)
      with b show ?thesis by (simp add: settled_def id rin)
    qed
  qed
qed

lemma step_same:
  assumes "synced m w" "keyed w j" "settled w j"
  shows "settings_v (element_step m j w) = settings_v w
       \<and> persisted m (element_step m j w) = persisted m w"
proof (cases "j < length (elements w)")
  case False
  then show ?thesis by (simp add: element_step_beyond)
next
  case True
  from assms(2) True have k: "set (el_handlers (elements w ! j)) \<subseteq> {el_id (elements w ! j)}"
    "\<forall>i \<in> set (radios_in w j). set (r_handlers (radios w ! i)) \<subseteq> {el_id (elements w ! j)}"
    by (simp_all add: keyed_def)
  show ?thesis
  proof (cases "el_body (elements w ! j)")
    case (Valued s)
    with assms(3) True obtain s' where "settings_v w (el_id (elements w ! j)) = Some (JStr s')"
      by (auto simp: settled_def)
    from manage_valued_settled_same [OF True Valued k(1) this assms(1)]
    show ?thesis unfolding element_step_valued [OF True Valued] by (rule conjI)
  next
    case (Container rs)
    show ?thesis
    proof (cases "radios_in w j \<noteq> []")
      case False
      then show ?thesis
        unfolding element_step_container [OF True Container] by simp
    next
      case ne: True
      have eq: "element_step m j w = radios_step m (el_id (elements w ! j)) (radios_in w j) w"
        unfolding element_step_container [OF True Container] using ne by simp
      have valid: "\<forall>i \<in> set (radios_in w j). i < length (radios w)"
        using radios_in_valid by blast
      from assms(3) True Container
      have "settled_group (settings_v w) (radios w) (el_id (elements w ! j)) (radios_in w j)"
        by (simp add: settled_def)
      from radios_step_settled_same [OF valid k(2) this assms(1)]
      show ?thesis unfolding eq by (rule conjI)
    qed
  qed
qed

lemma step_settings:
  assumes "keyed w j"
  shows "settings_v (element_step m j w) = settings_v w
       \<or> (\<exists>s. settings_v (element_step m j w) = (settings_v w)(el_id (elements w ! j) \<mapsto> JStr s))"
proof (cases "j < length (elements w)")
  case False
  then show ?thesis by (simp add: element_step_beyond)
next
  case True
  from assms True have k: "set (el_handlers (elements w ! j)) \<subseteq> {el_id (elements w ! j)}"
    "\<forall>i \<in> set (radios_in w j). set (r_handlers (radios w ! i)) \<subseteq> {el_id (elements w ! j)}"
    by (simp_all add: keyed_def)
  show ?thesis
  proof (cases "el_body (elements w ! j)")
    case (Valued s)
    from manage_valued_settings(1) [OF True Valued k(1), of m]
    show ?thesis unfolding element_step_valued [OF True Valued] by blast
  next
    case (Container rs)
    show ?thesis
    proof (cases "radios_in w j \<noteq> []")
      case False
      then show ?thesis
        unfolding element_step_container [OF True Container] by simp
    next
      case ne: True
      have eq: "element_step m j w = radios_step m (el_id (elements w ! j)) (radios_in w j) w"
        unfolding element_step_container [OF True Container] using ne by simp
      have valid: "\<forall>i \<in> set (radios_in w j). i < length (radios w)"
        using radios_in_valid by blast
      from radios_step_settings [OF valid k(2), of m]
      show ?thesis unfolding eq by blast
    qed
  qed
qed

lemma stored_value_other [simp]: "k \<noteq> k0 \<Longrightarrow> stored_value (v(k0 \<mapsto> x)) k = stored_value v k"
  by (simp add: stored_value_def)

lemma settled_group_same_doc:
  assumes "settled_group v l k radio"
    and "\<forall>i \<in> set radio. r_value (l' ! i) = r_value (l ! i) \<and> (r_checked (l' ! i) \<longrightarrow> r_checked (l ! i))"
  shows "settled_group v l' k radio"
proof (cases "stored_value v k")
  case None
  with assms show ?thesis by (auto simp: settled_group_def)
next
  case (Some x)
  with assms show ?thesis by (cases x) (simp_all add: settled_group_def del: to_string.simps)
qed

lemma settled_group_mono:
  assumes "settled_group v l k radio"
    and "v' = v \<or> (\<exists>s. v' = v(k0 \<mapsto> JStr s))"
    and "\<forall>i \<in> set radio. r_value (l' ! i) = r_value (l ! i) \<and> (r_checked (l' ! i) \<longrightarrow> r_checked (l ! i))"
  shows "settled_group v' l' k radio"
proof -
  from assms(1,3) have same: "settled_group v l' k radio" by (rule settled_group_same_doc)
  from assms(2) show ?thesis
  proof
    assume "v' = v"
    with same show ?thesis by simp
  next
    assume "\<exists>s. v' = v(k0 \<mapsto> JStr s)"
    then obtain s where v': "v' = v(k0 \<mapsto> JStr s)" by blast
    show ?thesis
    proof (cases "k = k0")
      case True
      then show ?thesis by (simp add: v' settled_group_def)
    next
      case False
      then have "stored_value v' k = stored_value v k" by (simp add: v')
      with same show ?thesis by (simp add: settled_group_def)
    qed
  qed
qed

lemma other_steps:
  assumes fr: "frame j w w'"
    and v: "settings_v w' = settings_v w \<or> (\<exists>s. settings_v w' = (settings_v w)(k0 \<mapsto> JStr s))"
    and ne: "j' \<noteq> j"
    and dis: "\<forall>i \<in> set (radios_in w j'). i \<notin> set (radios_in w j)"
  shows "keyed w j' \<Longrightarrow> keyed w' j'" and "settled w j' \<Longrightarrow> settled w' j'"
proof -
  from fr have len: "length (elements w') = length (elements w)" by (simp add: frame_def)
  note rin = frame_radios_in [OF fr, of j']
  have el: "elements w' ! j' = elements w ! j'" if "j' < length (elements w)"
    using fr ne that by (simp add: frame_def)
  have rad: "r_value (radios w' ! i) = r_value (radios w ! i)"
    "r_handlers (radios w' ! i) = r_handlers (radios w ! i)"
    "r_checked (radios w' ! i) \<longrightarrow> r_checked (radios w ! i)"
    if "i \<in> set (radios_in w j')" for i
  proof -
    from that have "i < length (radios w)" by (rule radios_in_valid)
    moreover from that dis have "i \<notin> set (radios_in w j)" by blast
    ultimately show "r_value (radios w' ! i) = r_value (radios w ! i)"
      "r_handlers (radios w' ! i) = r_handlers (radios w ! i)"
      "r_checked (radios w' ! i) \<longrightarrow> r_checked (radios w ! i)"
      using fr by (simp_all add: frame_def)
  qed
  show "keyed w' j'" if "keyed w j'"
    using that by (simp add: keyed_def len rin el rad(2))
  show "settled w' j'" if "settled w j'"
  proof (cases "j' < length (elements w)")
    case False
    then show ?thesis by (simp add: settled_def len)
  next
    case True
    show ?thesis
    proof (cases "el_body (elements w ! j')")
      case (Valued s)
      with that True obtain s' where s': "settings_v w (el_id (elements w ! j')) = Some (JStr s')"
        by (auto simp: settled_def)
      from v have "\<exists>s'. settings_v w' (el_id (elements w ! j')) = Some (JStr s')"
      proof
        assume "settings_v w' = settings_v w"
        with s' show ?thesis by simp
      next
        assume "\<exists>s. settings_v w' = (settings_v w)(k0 \<mapsto> JStr s)"
        then obtain s where "settings_v w' = (settings_v w)(k0 \<mapsto> JStr s)" by blast
        with s' show ?thesis by (cases "el_id (elements w ! j') = k0") simp_all
      qed
      with True Valued show ?thesis by (simp add: settled_def len el)
    next
      case (Container rs)
      with that True
      have "settled_group (settings_v w) (radios w) (el_id (elements w ! j')) (radios_in w j')"
        by (simp add: settled_def)
      from settled_group_mono [OF this v, of "radios w'"] rad(1,3)
      have "settled_group (settings_v w') (radios w') (el_id (elements w ! j')) (radios_in w j')"
        by blast
      with True Container show ?thesis by (simp add: settled_def len el rin)
    qed
  qed
qed

lemma step_bound:
  assumes inv: "bound m selected w" and j: "j \<in> set selected"
  shows "bound m selected (element_step m j w)"
    and "settled (element_step m j w) j"
    and "\<And>j'. j' \<in> set selected \<Longrightarrow> settled w j' \<Longrightarrow> settled (element_step m j w) j'"
proof -
  let ?w = "element_step m j w"
  from inv have sy: "synced m w" and ky: "\<forall>j \<in> set selected. keyed w j"
    and sep: "separate selected w"
    by (simp_all add: bound_def)
  from ky j have kj: "keyed w j" by blast
  note fr = element_step_frame [of j w m]
  note v = step_settings [OF kj, of m]
  have dis: "\<forall>i \<in> set (radios_in w j'). i \<notin> set (radios_in w j)"
    if "j' \<in> set selected" "j' \<noteq> j" for j'
    using sep j that unfolding separate_def by blast
  show st: "settled ?w j" using kj by (rule step_settles)
  show keep: "settled ?w j'" if "j' \<in> set selected" "settled w j'" for j'
  proof (cases "j' = j")
    case True
    with st show ?thesis by simp
  next
    case False
    from other_steps(2) [OF fr v False dis [OF that(1) False] that(2)] show ?thesis .
  qed
  have "keyed ?w j'" if "j' \<in> set selected" for j'
  proof (cases "j' = j")
    case True
    with step_keyed [OF kj, of m] show ?thesis by simp
  next
    case False
    from ky that have "keyed w j'" by blast
    from other_steps(1) [OF fr v False dis [OF that False] this] show ?thesis .
  qed
  moreover have "synced m ?w" using element_step_grows [OF sy] by blast
  moreover have "separate selected ?w"
    using sep by (simp add: separate_def frame_radios_in [OF fr])
  ultimately show "bound m selected ?w" by (simp add: bound_def)
qed

lemma fold_settles:
  assumes "bound m selected w" "set js \<subseteq> set selected"
  shows "bound m selected (fold (element_step m) js w)
       \<and> (\<forall>j \<in> set selected. settled w j \<or> j \<in> set js \<longrightarrow>
             settled (fold (element_step m) js w) j)"
  using assms
proof (induction js arbitrary: w)
  case Nil
  then show ?case by simp
next
  case (Cons j js)
  from Cons.prems have j: "j \<in> set selected" and js: "set js \<subseteq> set selected" by simp_all
  note step = step_bound [OF Cons.prems(1) j]
  from Cons.IH [OF step(1) js]
  have b: "bound m selected (fold (element_step m) js (element_step m j w))"
    and s: "\<forall>j' \<in> set selected. settled (element_step m j w) j' \<or> j' \<in> set js \<longrightarrow>
             settled (fold (element_step m) js (element_step m j w)) j'"
    by blast+
  have "settled (fold (element_step m) js (element_step m j w)) j'"
    if "j' \<in> set selected" "settled w j' \<or> j' \<in> set (j # js)" for j'
  proof -
    from that(2) have "settled (element_step m j w) j' \<or> j' \<in> set js"
      using step(2) step(3) [OF that(1)] by auto
    with s that(1) show ?thesis by blast
  qed
  with b show ?case by simp
qed

lemma fold_stable:
  assumes "bound m selected w" "\<forall>j \<in> set selected. settled w j" "set js \<subseteq> set selected"
  shows "settings_v (fold (element_step m) js w) = settings_v w
       \<and> persisted m (fold (element_step m) js w) = persisted m w"
  using assms
proof (induction js arbitrary: w)
  case Nil
  then show ?case by simp
next
  case (Cons j js)
  from Cons.prems have j: "j \<in> set selected" and js: "set js \<subseteq> set selected" by simp_all
  from Cons.prems(1) have sy: "synced m w" and kj: "keyed w j"
    using j by (simp_all add: bound_def)
  from Cons.prems(2) j have sj: "settled w j" by blast
  note step = step_bound [OF Cons.prems(1) j]
  have all: "\<forall>j' \<in> set selected. settled (element_step m j w) j'"
    using step(3) Cons.prems(2) by blast
  note ih = Cons.IH [OF step(1) all js]
  note same = step_same [OF sy kj sj]
  from ih same have "settings_v (fold (element_step m) js (element_step m j w)) = settings_v w"
    by (simp only:)
  moreover from ih same
  have "persisted m (fold (element_step m) js (element_step m j w)) = persisted m w"
    by (simp only:)
  ultimately show ?case by simp
qed
















lemma radios_in_uncheck [simp]:
  "radios_in (w\<lparr>radios := uncheck radio (radios w)\<rparr>) j = radios_in w j"
  unfolding radios_in_def by (simp cong: body.case_cong)

lemma frame_uncheck: "frame j w (w\<lparr>radios := uncheck (radios_in w j) (radios w)\<rparr>)"
  by (auto simp: frame_def uncheck_nth)











end
